theory Spec2Isabelle
  imports
    Main
    "HOL-Library.AList"
    "HOL-Library.Char_ord"
    "HOL-Library.List_Lexorder"
    "HOL-Library.Sublist"
begin

section \<open>XML to CSV converter for bus data (xmltocsv.py)\<close>

text \<open>
  A shallow embedding of the class \<open>XMLToBusCSVConverter\<close>. A Python string is a
  \<open>string\<close>, the list of its UTF-8 bytes (the order of two strings by bytes is their
  order by code points, and the ASCII characters that the program looks for never occur
  inside the bytes of another character);
  a Python \<open>dict\<close> is an association list kept in insertion order and written with
  \<open>AList.update\<close> (an existing key keeps its place and takes the new value, a new key
  goes to the end); the set \<open>self.field_names\<close> is a \<open>string set\<close>; every
  \<open>print\<close> appends one line to the list \<open>stdout\<close>.
  A leading underscore of a Python name is dropped (\<open>_strip_namespace\<close> is
  \<open>strip_namespace\<close>).
\<close>

subsection \<open>The parsed document\<close>

text \<open>
  An \<open>xml.etree.ElementTree.Element\<close>: its tag (\<open>{uri}local\<close> when namespaced), its
  attribute dictionary in document order, its text (\<open>None\<close> when absent) and its
  children in document order.
\<close>

datatype xml = Element (tag: string) (attrib: "(string \<times> string) list")
  (text_content: "string option") (children: "xml list")

type_synonym row = "(string \<times> string) list"

text \<open>What \<open>ET.parse(filepath)\<close> gives for one path: the root, or the exception raised.\<close>

datatype source = Parsed xml | ParseError string | OtherError string

subsection \<open>String helpers of the Python library\<close>

text \<open>
  The white space of \<open>str.strip()\<close> (the code points \<open>c\<close> with \<open>c.isspace()\<close>): U+0009 to
  U+000D, U+001C to U+0020, U+0085, U+00A0, U+1680, U+2000 to U+200A, U+2028, U+2029,
  U+202F, U+205F and U+3000, each as its UTF-8 bytes.
\<close>

definition whitespace :: "string list" where
  "whitespace =
     map (\<lambda>c. [c]) [CHR 0x09, CHR 0x0A, CHR 0x0B, CHR 0x0C, CHR 0x0D,
                     CHR 0x1C, CHR 0x1D, CHR 0x1E, CHR 0x1F, CHR 0x20]
     @ map (\<lambda>c. [CHR 0xC2, c]) [CHR 0x85, CHR 0xA0]
     @ map (\<lambda>c. [CHR 0xE1, CHR 0x9A, c]) [CHR 0x80]
     @ map (\<lambda>c. [CHR 0xE2, CHR 0x80, c])
         [CHR 0x80, CHR 0x81, CHR 0x82, CHR 0x83, CHR 0x84, CHR 0x85, CHR 0x86, CHR 0x87,
          CHR 0x88, CHR 0x89, CHR 0x8A, CHR 0xA8, CHR 0xA9, CHR 0xAF]
     @ map (\<lambda>c. [CHR 0xE2, CHR 0x81, c]) [CHR 0x9F]
     @ map (\<lambda>c. [CHR 0xE3, CHR 0x80, c]) [CHR 0x80]"

text \<open>\<open>str.isspace\<close> for one character, given as its UTF-8 bytes.\<close>

definition isspace :: "string \<Rightarrow> bool" where
  "isspace w = (w \<in> set whitespace)"

text \<open>
  Removing the white space at the front of a string: a white space character has one, two
  or three bytes. The test is a parameter, so that the same function serves the other end
  of the string, read backwards.
\<close>

fun drop_space :: "(string \<Rightarrow> bool) \<Rightarrow> string \<Rightarrow> string" where
  "drop_space sp [] = []"
| "drop_space sp (c # s) =
     (if sp [c] then drop_space sp s
      else if sp (c # take 1 s) then drop_space sp (drop 1 s)
      else if sp (c # take 2 s) then drop_space sp (drop 2 s)
      else c # s)"

definition lstrip :: "string \<Rightarrow> string" where
  "lstrip s = drop_space isspace s"

definition rstrip :: "string \<Rightarrow> string" where
  "rstrip s = rev (drop_space (\<lambda>w. isspace (rev w)) (rev s))"

text \<open>\<open>str.strip()\<close>: leading and trailing white space removed.\<close>

definition strip :: "string \<Rightarrow> string" where
  "strip s = rstrip (lstrip s)"

text \<open>\<open>s.split(c)\<close> for a separator of one character: never the empty list.\<close>

fun split_on :: "char \<Rightarrow> string \<Rightarrow> string list" where
  "split_on c [] = [[]]"
| "split_on c (x # xs) =
     (if x = c then [] # split_on c xs
      else (x # hd (split_on c xs)) # tl (split_on c xs))"

text \<open>\<open>Path(filepath).name\<close> for the normalised paths that \<open>glob\<close> returns: what
  follows the last separator.\<close>

definition path_name :: "string \<Rightarrow> string" where
  "path_name p = rev (takeWhile (\<lambda>c. c \<noteq> CHR ''/'') (rev p))"

text \<open>\<open>str(n)\<close> for a length.\<close>

definition digit_char :: "nat \<Rightarrow> char" where
  "digit_char d = char_of (48 + d)"

function str_nat :: "nat \<Rightarrow> string" where
  "str_nat n = (if n < 10 then [digit_char n] else str_nat (n div 10) @ [digit_char (n mod 10)])"
  by pat_completeness auto
termination
  by (relation "measure id") auto

declare str_nat.simps [simp del]

subsection \<open>Namespace stripping and paths\<close>

definition strip_namespace :: "string \<Rightarrow> string" where
  "strip_namespace tg =
     (if CHR ''}'' \<in> set tg then split_on (CHR ''}'') tg ! 1 else tg)"

definition get_element_path :: "xml \<Rightarrow> string \<Rightarrow> string" where
  "get_element_path element parent_path =
     (let tag_clean = strip_namespace (tag element);
          current_path = (if parent_path \<noteq> [] then parent_path @ ''.'' @ tag_clean else tag_clean)
      in current_path)"

text \<open>The test \<open>element.text and element.text.strip()\<close>.\<close>

definition has_text :: "string option \<Rightarrow> bool" where
  "has_text t = (case t of None \<Rightarrow> False | Some s \<Rightarrow> s \<noteq> [] \<and> strip s \<noteq> [])"

text \<open>\<open>element.text.strip()\<close>, read only where \<open>has_text\<close> holds.\<close>

definition text_strip :: "string option \<Rightarrow> string" where
  "text_strip t = (case t of None \<Rightarrow> [] | Some s \<Rightarrow> strip s)"

subsection \<open>Generic recursive flattening (the fallback)\<close>

text \<open>
  \<open>_flatten_nested_records(element, parent_path, parent_data)\<close>. The function reads and
  writes \<open>self.field_names\<close>, passed here as the last argument and returned with the
  records. \<open>len(set(child_tags))\<close> is \<open>card (set child_tags)\<close>.
\<close>

fun flatten_nested_records ::
  "xml \<Rightarrow> string \<Rightarrow> row \<Rightarrow> string set \<Rightarrow> row list \<times> string set" where
  "flatten_nested_records (Element tg attrs txt chs) parent_path parent_data field_names =
     (let current_path = get_element_path (Element tg attrs txt chs) parent_path;
          (current_data, field_names) =
             fold (\<lambda>(attr_name, attr_value) (d, f).
                     let attr_name_clean = strip_namespace attr_name;
                         key = strip_namespace tg @ ''.@'' @ attr_name_clean
                     in (AList.update key attr_value d, insert key f))
                  attrs (parent_data, field_names);
          (current_data, field_names) =
             (if has_text txt
              then let key = strip_namespace tg @ ''.value''
                   in (AList.update key (text_strip txt) current_data, insert key field_names)
              else (current_data, field_names))
      in if chs = []
         then ((if current_data \<noteq> [] then [current_data] else []), field_names)
         else
           let child_tags = map tag chs;
               same_tag = (card (set child_tags) = 1)
           in if same_tag \<and> length chs > 1
              then fold (\<lambda>child (records, f).
                           let (child_records, f') =
                                 flatten_nested_records child current_path current_data f
                           in (records @ child_records, f'))
                        chs ([], field_names)
              else fold (\<lambda>child (records, f).
                           let (child_records, f') =
                                 flatten_nested_records child current_path current_data f
                           in (records @ child_records, f'))
                        chs ([], field_names))"

text \<open>The same function with the collection test removed.\<close>

fun flatten_simplified ::
  "xml \<Rightarrow> string \<Rightarrow> row \<Rightarrow> string set \<Rightarrow> row list \<times> string set" where
  "flatten_simplified (Element tg attrs txt chs) parent_path parent_data field_names =
     (let current_path = get_element_path (Element tg attrs txt chs) parent_path;
          (current_data, field_names) =
             fold (\<lambda>(attr_name, attr_value) (d, f).
                     let attr_name_clean = strip_namespace attr_name;
                         key = strip_namespace tg @ ''.@'' @ attr_name_clean
                     in (AList.update key attr_value d, insert key f))
                  attrs (parent_data, field_names);
          (current_data, field_names) =
             (if has_text txt
              then let key = strip_namespace tg @ ''.value''
                   in (AList.update key (text_strip txt) current_data, insert key field_names)
              else (current_data, field_names))
      in if chs = []
         then ((if current_data \<noteq> [] then [current_data] else []), field_names)
         else fold (\<lambda>child (records, f).
                      let (child_records, f') =
                            flatten_simplified child current_path current_data f
                      in (records @ child_records, f'))
                   chs ([], field_names))"

subsection \<open>Record-root flattening\<close>

text \<open>
  \<open>_flatten_element(element, record, prefix)\<close> (the argument \<open>prefix\<close> is
  \<open>pfx\<close> here) mutates \<open>record\<close> and
  \<open>self.field_names\<close>: both are passed as a pair and returned.
\<close>

fun flatten_element :: "xml \<Rightarrow> string \<Rightarrow> row \<times> string set \<Rightarrow> row \<times> string set" where
  "flatten_element (Element tg attrs txt chs) pfx (record, field_names) =
     (let (record, field_names) =
             fold (\<lambda>(attr_name, attr_value) (r, f).
                     let attr_name_clean = strip_namespace attr_name;
                         key = (if pfx \<noteq> []
                                then pfx @ strip_namespace tg @ ''_@'' @ attr_name_clean
                                else strip_namespace tg @ ''_@'' @ attr_name_clean)
                     in (AList.update key attr_value r, insert key f))
                  attrs (record, field_names);
          (record, field_names) =
             (if has_text txt
              then let key = (if pfx \<noteq> [] then pfx @ strip_namespace tg
                              else strip_namespace tg)
                   in (AList.update key (text_strip txt) record, insert key field_names)
              else (record, field_names))
      in fold (\<lambda>child st.
                 let new_prefix = (if pfx \<noteq> [] then pfx @ strip_namespace tg @ ''_''
                                   else strip_namespace tg @ ''_'')
                 in flatten_element child new_prefix st)
              chs (record, field_names))"

definition element_to_record :: "xml \<Rightarrow> string \<Rightarrow> string set \<Rightarrow> row \<times> string set" where
  "element_to_record element filepath field_names =
     (let record = [(''source_file'', path_name filepath)];
          (record, field_names) = flatten_element element [] (record, field_names)
      in (if length record > 1 then record else [], field_names))"

subsection \<open>The converter object\<close>

text \<open>
  The fields of \<open>self\<close> that the methods read or write, and the standard output.
  \<open>field_hierarchy\<close> and \<open>data_quality\<close> are initialised and never used.
\<close>

record converter =
  xml_folder :: string
  extracted_data :: "row list"
  field_names :: "string set"
  source_files :: "string list"
  stdout :: "string list"

definition init :: "string \<Rightarrow> converter" where
  "init folder =
     \<lparr>xml_folder = folder, extracted_data = [], field_names = {''source_file''},
      source_files = [], stdout = []\<rparr>"

definition print :: "string \<Rightarrow> converter \<Rightarrow> converter" where
  "print line self = self\<lparr>stdout := stdout self @ [line]\<rparr>"

text \<open>The UTF-8 bytes of the arrow, the check mark and the cross that the messages use.\<close>

definition arrow :: string where
  "arrow = [CHR 0xE2, CHR 0x86, CHR 0x92]"

definition check_mark :: string where
  "check_mark = [CHR 0xE2, CHR 0x9C, CHR 0x93]"

definition cross :: string where
  "cross = [CHR 0xE2, CHR 0x9C, CHR 0x97]"

definition quoted :: "string \<Rightarrow> string" where
  "quoted s = [CHR 0x27] @ s @ [CHR 0x27]"

subsection \<open>Record classification\<close>

text \<open>\<open>root.iter()\<close>: the element and its descendants in document order.\<close>

fun iter :: "xml \<Rightarrow> xml list" where
  "iter (Element tg attrs txt chs) = Element tg attrs txt chs # concat (map iter chs)"

text \<open>\<open>root.findall(".//pattern")\<close>: the proper descendants with that tag, in document
  order.\<close>

definition findall :: "string \<Rightarrow> xml \<Rightarrow> xml list" where
  "findall pattern root = filter (\<lambda>e. tag e = pattern) (concat (map iter (children root)))"

definition journey_patterns :: "string list" where
  "journey_patterns = [''Journey'', ''Leg'', ''Segment'', ''Connection'', ''Route'',
                       ''Stop'', ''Station'', ''Transit'']"

text \<open>
  The loop that each of the three strategies runs over its candidate elements:
  \<open>record = self._element_to_record(elem, filepath)\<close>, appended when not empty.
\<close>

definition collect_records ::
  "xml list \<Rightarrow> string \<Rightarrow> row list \<times> converter \<Rightarrow> row list \<times> converter" where
  "collect_records elems filepath =
     fold (\<lambda>elem (records, self).
             let (record, f) = element_to_record elem filepath (field_names self);
                 self = self\<lparr>field_names := f\<rparr>
             in ((if record \<noteq> [] then records @ [record] else records), self))
          elems"

text \<open>
  Strategy 1, the loop over \<open>journey_patterns\<close>. The first component of the result says
  whether the loop left the function through \<open>return records\<close>.
\<close>

primrec scan_patterns ::
  "string list \<Rightarrow> xml \<Rightarrow> string \<Rightarrow> row list \<times> converter \<Rightarrow> bool \<times> row list \<times> converter" where
  "scan_patterns [] root filepath st = (False, st)"
| "scan_patterns (pattern # rest) root filepath st =
     (let (records, self) = st;
          elements = findall pattern root
      in if elements \<noteq> [] \<and> length elements > 1
         then
           let self = print (''  '' @ arrow @ '' Found '' @ str_nat (length elements) @ '' ''
                             @ quoted pattern @ '' elements'') self;
               (records, self) = collect_records elements filepath (records, self)
           in if records \<noteq> [] then (True, records, self)
              else scan_patterns rest root filepath (records, self)
         else scan_patterns rest root filepath (records, self))"

text \<open>Strategy 2, the loop over the children of the root.\<close>

primrec scan_children ::
  "xml list \<Rightarrow> string \<Rightarrow> row list \<times> converter \<Rightarrow> bool \<times> row list \<times> converter" where
  "scan_children [] filepath st = (False, st)"
| "scan_children (child # rest) filepath st =
     (let (records, self) = st;
          grandchildren = children child
      in if grandchildren \<noteq> []
         then
           let gc_tags = map tag grandchildren
           in if card (set gc_tags) = 1 \<and> length grandchildren > 1
              then
                let self = print (''  '' @ arrow @ '' Found collection of ''
                                  @ str_nat (length grandchildren) @ '' ''
                                  @ quoted (tag (hd grandchildren)) @ '' elements'') self;
                    (records, self) = collect_records grandchildren filepath (records, self)
                in if records \<noteq> [] then (True, records, self)
                   else scan_children rest filepath (records, self)
              else scan_children rest filepath (records, self)
         else scan_children rest filepath (records, self))"

definition extract_records_smart ::
  "xml \<Rightarrow> string \<Rightarrow> converter \<Rightarrow> row list \<times> converter" where
  "extract_records_smart root filepath self =
     (let records = [];
          (returned, records, self) = scan_patterns journey_patterns root filepath (records, self)
      in if returned then (records, self)
         else
           let (returned, records, self) = scan_children (children root) filepath (records, self)
           in if returned then (records, self)
              else
                let chs = children root
                in if chs \<noteq> []
                   then
                     let child_tags = map tag chs
                     in if card (set child_tags) = 1 \<and> length chs > 1
                        then
                          let self = print (''  '' @ arrow @ '' Found '' @ str_nat (length chs)
                                            @ '' root-level '' @ quoted (tag (hd chs))
                                            @ '' elements'') self
                          in collect_records chs filepath (records, self)
                        else (records, self)
                   else (records, self))"

subsection \<open>One file, all files\<close>

text \<open>
  \<open>process_xml_file(filepath)\<close>, given what \<open>ET.parse(filepath)\<close> yields. The two
  \<open>except\<close> clauses are the last two cases: \<open>ET.parse\<close> is the first statement of the
  \<open>try\<close> block, so nothing has been printed or registered when it raises.
\<close>

definition process_xml_file ::
  "string \<Rightarrow> source \<Rightarrow> converter \<Rightarrow> (row list \<times> nat) \<times> converter" where
  "process_xml_file filepath src self =
     (case src of
        Parsed root \<Rightarrow>
          let filename = path_name filepath;
              self = print (CHR 0x0A # replicate 70 (CHR ''='')) self;
              self = print (''Processing: '' @ filename) self;
              self = print (''Root element: '' @ tag root) self;
              self = print (replicate 70 (CHR ''='')) self;
              (records, self) = extract_records_smart root filepath self;
              (records, self) =
                (if records = []
                 then
                   let self = print (''  '' @ arrow @ '' Using fallback extraction strategy...'') self;
                       (records, f) = flatten_nested_records root [] [] (field_names self)
                   in (records, self\<lparr>field_names := f\<rparr>)
                 else (records, self));
              records = map (\<lambda>record. if ''source_file'' \<notin> fst ` set record
                                        then AList.update ''source_file'' filename record
                                        else record) records;
              self = print (''  '' @ check_mark @ '' Extracted '' @ str_nat (length records)
                            @ '' records'') self
          in ((records, length records), self)
      | ParseError e \<Rightarrow> (([], 0), print (''  '' @ cross @ '' Error parsing XML: '' @ e) self)
      | OtherError e \<Rightarrow> (([], 0), print (''  '' @ cross @ '' Unexpected error: '' @ e) self))"

text \<open>
  \<open>find_xml_files()\<close>: \<open>Path(self.xml_folder).glob("**/*.xml")\<close> over the recursive
  listing of the folder, each path given with what parsing it yields. The pattern keeps the
  paths whose last component ends in \<open>.xml\<close>.
\<close>

definition find_xml_files ::
  "(string \<times> source) list \<Rightarrow> converter \<Rightarrow> (string \<times> source) list \<times> converter" where
  "find_xml_files listing self =
     (let xml_files = filter (\<lambda>(p, src). suffix ''.xml'' (path_name p)) listing
      in (xml_files, self\<lparr>source_files := map fst xml_files\<rparr>))"

definition process_all_files ::
  "(string \<times> source) list \<Rightarrow> converter \<Rightarrow> nat \<times> converter" where
  "process_all_files listing self =
     (let (xml_files, self) = find_xml_files listing self
      in if xml_files = []
         then (0, print (''No XML files found in: '' @ xml_folder self) self)
         else
           let self = print (CHR 0x0A # ''Found '' @ str_nat (length xml_files)
                             @ '' XML file(s)'') self
           in fold (\<lambda>(filepath, src) (total_records, self).
                      let ((records, count), self) = process_xml_file filepath src self;
                          self = self\<lparr>extracted_data := extracted_data self @ records\<rparr>
                      in (total_records + count, self))
                   xml_files (0, self))"

subsection \<open>Column order and the CSV file\<close>

definition priority_fields :: "string list" where
  "priority_fields =
     [''source_file'',
      ''Route'', ''RouteID'', ''LineID'', ''LineName'', ''Line'',
      ''FromStop'', ''ToStop'', ''StopID'', ''StopName'', ''Station'', ''Stop'',
      ''AnnotatedStopPointRef'', ''CommonName'', ''Indicator'', ''LocalityName'', ''StopPointRef'',
      ''Lat'', ''Latitude'', ''Lon'', ''Longitude'', ''Coordinates'',
      ''Runtime'', ''Duration'', ''TravelTime'', ''Time'', ''Departure'', ''Arrival'',
      ''Timestamp'', ''Date'', ''Time'',
      ''Direction'', ''Sequence'',
      ''Operator'', ''Company'', ''Provider'']"

text \<open>
  The column order of \<open>save_to_csv\<close>. A Python set has no fixed iteration order, so
  \<open>list(self.field_names)\<close> is an argument: \<open>enum\<close>, some list of the members of the
  set, each once. \<open>sorted\<close> is \<open>sort\<close> (strings compare by code point, which on
  UTF-8 bytes is the byte order), \<open>sorted_fields.remove(field)\<close> is \<open>remove1\<close>.
\<close>

definition column_order :: "string list \<Rightarrow> string list" where
  "column_order enum =
     (let sorted_fields = sort enum;
          (ordered_fields, sorted_fields) =
             fold (\<lambda>field (ordered_fields, sorted_fields).
                     if field \<in> set sorted_fields
                     then (ordered_fields @ [field], remove1 field sorted_fields)
                     else (ordered_fields, sorted_fields))
                  priority_fields ([], sorted_fields)
      in ordered_fields @ sorted_fields)"

text \<open>
  The \<open>csv\<close> module with its default dialect: a field is quoted when it holds a comma,
  a double quote, a carriage return or a line feed, a double quote inside is doubled, a row
  that is one empty field is written as two double quotes, lines end in CR LF.
\<close>

definition csv_field :: "string \<Rightarrow> string" where
  "csv_field v =
     (if list_ex (\<lambda>c. c \<in> set [CHR '','', CHR 0x22, CHR 0x0D, CHR 0x0A]) v
      then [CHR 0x22] @ concat (map (\<lambda>c. if c = CHR 0x22 then [c, c] else [c]) v) @ [CHR 0x22]
      else v)"

fun join :: "string \<Rightarrow> string list \<Rightarrow> string" where
  "join sep [] = []"
| "join sep [x] = x"
| "join sep (x # y # ys) = x @ sep @ join sep (y # ys)"

definition csv_line :: "string list \<Rightarrow> string" where
  "csv_line cells =
     (if cells = [[]] then [CHR 0x22, CHR 0x22] else join '','' (map csv_field cells))
     @ [CHR 0x0D, CHR 0x0A]"

text \<open>
  \<open>csv.DictWriter\<close>: a row with a key outside \<open>fieldnames\<close> raises \<open>ValueError\<close>
  (\<open>None\<close> here), a missing key is written as the empty string.
\<close>

definition dict_to_list :: "string list \<Rightarrow> row \<Rightarrow> string list option" where
  "dict_to_list fieldnames rowdict =
     (if list_ex (\<lambda>k. k \<notin> set fieldnames) (map fst rowdict) then None
      else Some (map (\<lambda>key. case map_of rowdict key of Some v \<Rightarrow> v | None \<Rightarrow> []) fieldnames))"

text \<open>
  \<open>save_to_csv\<close>: the bytes written to the output file, or \<open>None\<close> when the method
  returns the empty string (no data, or an exception while writing). The name of the output
  file and the messages printed here do not enter the content of the file and are left out.
\<close>

definition save_to_csv :: "converter \<Rightarrow> string list \<Rightarrow> string option" where
  "save_to_csv self enum =
     (if extracted_data self = [] then None
      else
        let self = self\<lparr>extracted_data :=
                     map (\<lambda>record. if ''source_file'' \<notin> fst ` set record
                                     then AList.update ''source_file'' ''unknown'' record
                                     else record) (extracted_data self)\<rparr>;
            ordered_fields = column_order enum;
            lines = map (dict_to_list ordered_fields) (extracted_data self)
        in if list_ex (\<lambda>l. l = None) lines then None
           else Some (concat (map csv_line (ordered_fields # map the lines))))"

text \<open>
  The folder branch of \<open>main\<close>, without the summary (which only prints): the files are
  processed and, when a record was extracted, the CSV file is written.
\<close>

definition convert :: "string \<Rightarrow> (string \<times> source) list \<Rightarrow> string list \<Rightarrow> string option" where
  "convert folder listing enum =
     (let (record_count, self) = process_all_files listing (init folder)
      in if record_count > 0 then save_to_csv self enum else None)"

section \<open>Auxiliary functions of the proofs\<close>

text \<open>The part of a name after the last occurrence of a character (the whole name when
  the character does not occur).\<close>

definition after_last :: "char \<Rightarrow> string \<Rightarrow> string" where
  "after_last c s = rev (takeWhile (\<lambda>x. x \<noteq> c) (rev s))"

text \<open>Writing a list of key and value pairs into a dictionary, and into a dictionary and
  the field set together.\<close>

definition put_all :: "(string \<times> string) list \<Rightarrow> row \<Rightarrow> row" where
  "put_all ws = fold (\<lambda>(k, v). AList.update k v) ws"

definition write_all :: "(string \<times> string) list \<Rightarrow> row \<times> string set \<Rightarrow> row \<times> string set" where
  "write_all ws = fold (\<lambda>(k, v) (r, f). (AList.update k v r, insert k f)) ws"

text \<open>The writes of \<open>flatten_element\<close>, in the order in which it makes them.\<close>

fun items :: "string \<Rightarrow> xml \<Rightarrow> (string \<times> string) list" where
  "items pfx (Element tg attrs txt chs) =
     map (\<lambda>(n, v). (pfx @ strip_namespace tg @ ''_@'' @ strip_namespace n, v)) attrs
     @ (if has_text txt then [(pfx @ strip_namespace tg, text_strip txt)] else [])
     @ concat (map (items (pfx @ strip_namespace tg @ ''_'')) chs)"

text \<open>The writes of one element in the fallback, the rows of the fallback and the keys it
  registers.\<close>

definition node_items ::
  "string \<Rightarrow> (string \<times> string) list \<Rightarrow> string option \<Rightarrow> (string \<times> string) list" where
  "node_items tg attrs txt =
     map (\<lambda>(n, v). (strip_namespace tg @ ''.@'' @ strip_namespace n, v)) attrs
     @ (if has_text txt then [(strip_namespace tg @ ''.value'', text_strip txt)] else [])"

fun fallback_rows :: "xml \<Rightarrow> row \<Rightarrow> row list" where
  "fallback_rows (Element tg attrs txt chs) parent_data =
     (let current_data = put_all (node_items tg attrs txt) parent_data
      in if chs = [] then (if current_data \<noteq> [] then [current_data] else [])
         else concat (map (\<lambda>child. fallback_rows child current_data) chs))"

fun fallback_fields :: "xml \<Rightarrow> string set" where
  "fallback_fields (Element tg attrs txt chs) =
     fst ` set (node_items tg attrs txt) \<union> \<Union> (fallback_fields ` set chs)"

text \<open>Some element of the tree carries an attribute or a text that is not blank.\<close>

fun has_content :: "xml \<Rightarrow> bool" where
  "has_content (Element tg attrs txt chs) =
     (attrs \<noteq> [] \<or> has_text txt \<or> list_ex has_content chs)"

text \<open>
  Every element of a subtree, in document order, with the local tag names of its ancestors
  inside that subtree, outermost first (none for the root of the subtree); the key prefix
  that a list of ancestors gives; the writes that one element makes under a prefix.
\<close>

fun element_paths :: "string list \<Rightarrow> xml \<Rightarrow> (string list \<times> xml) list" where
  "element_paths anc (Element tg attrs txt chs) =
     (anc, Element tg attrs txt chs)
     # concat (map (element_paths (anc @ [strip_namespace tg])) chs)"

definition key_prefix :: "string list \<Rightarrow> string" where
  "key_prefix anc = concat (map (\<lambda>a. a @ ''_'') anc)"

definition own_items :: "string \<Rightarrow> xml \<Rightarrow> (string \<times> string) list" where
  "own_items pfx e =
     map (\<lambda>(n, v). (pfx @ strip_namespace (tag e) @ ''_@'' @ strip_namespace n, v)) (attrib e)
     @ (if has_text (text_content e)
        then [(pfx @ strip_namespace (tag e), text_strip (text_content e))] else [])"

text \<open>The dictionary that \<open>element_to_record\<close> builds, before its test on the length.\<close>

definition record_of :: "xml \<Rightarrow> string \<Rightarrow> row" where
  "record_of e filepath = put_all (items [] e) [(''source_file'', path_name filepath)]"

text \<open>
  The members of a list in order, each at its first occurrence only (and none of those
  already seen); the body of the loop over \<open>priority_fields\<close> in \<open>column_order\<close>.
\<close>

primrec first_occ :: "'a list \<Rightarrow> 'a list \<Rightarrow> 'a list" where
  "first_occ seen [] = []"
| "first_occ seen (x # xs) =
     (if x \<in> set seen then first_occ seen xs else x # first_occ (x # seen) xs)"

definition order_step ::
  "string \<Rightarrow> string list \<times> string list \<Rightarrow> string list \<times> string list" where
  "order_step field = (\<lambda>(ordered_fields, sorted_fields).
                     if field \<in> set sorted_fields
                     then (ordered_fields @ [field], remove1 field sorted_fields)
                     else (ordered_fields, sorted_fields))"

text \<open>The records that the loop of a strategy appends for a list of candidate elements,
  and the keys it registers.\<close>

definition collect_rows :: "xml list \<Rightarrow> string \<Rightarrow> row list" where
  "collect_rows els filepath = [r \<leftarrow> map (\<lambda>e. record_of e filepath) els. 1 < length r]"

definition elems_fields :: "xml list \<Rightarrow> string set" where
  "elems_fields els = (\<Union>e \<in> set els. fst ` set (items [] e))"

text \<open>
  The parts of \<open>process_xml_file\<close>: the four lines printed before the classification,
  the loop that gives a record without \<open>source_file\<close> the name of the file, and the two
  messages.
\<close>

definition header_printed :: "string \<Rightarrow> xml \<Rightarrow> converter \<Rightarrow> converter" where
  "header_printed filepath root self =
     print (replicate 70 (CHR ''=''))
       (print (''Root element: '' @ tag root)
         (print (''Processing: '' @ path_name filepath)
           (print (CHR 0x0A # replicate 70 (CHR ''='')) self)))"

definition fill_source :: "string \<Rightarrow> row \<Rightarrow> row" where
  "fill_source filepath record =
     (if ''source_file'' \<notin> fst ` set record
      then AList.update ''source_file'' (path_name filepath) record else record)"

definition extracted_line :: "nat \<Rightarrow> string" where
  "extracted_line n = ''  '' @ check_mark @ '' Extracted '' @ str_nat n @ '' records''"

definition fallback_line :: string where
  "fallback_line = ''  '' @ arrow @ '' Using fallback extraction strategy...''"

text \<open>
  A later state of the same converter: the accumulated rows, the folder and the list of
  files are those of the earlier state, the registered keys and the printed lines have only
  grown.
\<close>

definition grows :: "converter \<Rightarrow> converter \<Rightarrow> bool" where
  "grows self sf =
     (extracted_data sf = extracted_data self \<and> xml_folder sf = xml_folder self
      \<and> source_files sf = source_files self \<and> field_names self \<subseteq> field_names sf
      \<and> prefix (stdout self) (stdout sf))"

text \<open>The row has the key \<open>source_file\<close>, with a value that is not the empty string.\<close>

definition has_source_file :: "row \<Rightarrow> bool" where
  "has_source_file r = (case map_of r ''source_file'' of None \<Rightarrow> False | Some v \<Rightarrow> v \<noteq> [])"

text \<open>
  The loop of \<open>process_all_files\<close> over the files found, from a running total and a
  state of the converter.
\<close>

definition process_files ::
  "(string \<times> source) list \<Rightarrow> nat \<times> converter \<Rightarrow> nat \<times> converter" where
  "process_files xml_files =
     fold (\<lambda>(filepath, src) (total_records, self).
             let ((records, count), self) = process_xml_file filepath src self;
                 self = self\<lparr>extracted_data := extracted_data self @ records\<rparr>
             in (total_records + count, self))
          xml_files"

text \<open>
  The invariant of the field registry: \<open>source_file\<close> is registered, and every key of
  every accumulated row is registered.
\<close>

definition registered :: "converter \<Rightarrow> bool" where
  "registered self =
     (''source_file'' \<in> field_names self
      \<and> (\<forall>row \<in> set (extracted_data self). fst ` set row \<subseteq> field_names self))"

section \<open>Properties\<close>

subsection \<open>Splitting and namespace stripping\<close>

lemma split_on_not_Nil: "split_on c s \<noteq> []"
  by (induction s) auto

lemma split_on_length: "c \<in> set s \<Longrightarrow> 2 \<le> length (split_on c s)"
proof (induction s)
  case Nil
  then show ?case by simp
next
  case (Cons x xs)
  have ne: "split_on c xs \<noteq> []" by (rule split_on_not_Nil)
  show ?case
  proof (cases "x = c")
    case True
    with ne show ?thesis by (cases "split_on c xs") auto
  next
    case False
    with Cons have "2 \<le> length (split_on c xs)" by auto
    with False show ?thesis by (cases "split_on c xs") auto
  qed
qed

lemma split_on_absent: "c \<notin> set s \<Longrightarrow> split_on c s = [s]"
  by (induction s) auto

lemma split_on_append: "c \<notin> set a \<Longrightarrow> split_on c (a @ c # b) = a # split_on c b"
  by (induction a) auto

lemma after_last_absent: "c \<notin> set s \<Longrightarrow> after_last c s = s"
proof -
  assume "c \<notin> set s"
  then have "takeWhile (\<lambda>x. x \<noteq> c) (rev s) = rev s"
    by (intro takeWhile_eq_all_conv[THEN iffD2]) auto
  then show ?thesis
    unfolding after_last_def by (simp only: rev_rev_ident)
qed

lemma after_last_append: "c \<notin> set b \<Longrightarrow> after_last c (a @ c # b) = b"
proof -
  assume b: "c \<notin> set b"
  have "takeWhile (\<lambda>x. x \<noteq> c) (rev b @ c # rev a)
        = rev b @ takeWhile (\<lambda>x. x \<noteq> c) (c # rev a)"
    using b by (intro takeWhile_append2) auto
  then have "takeWhile (\<lambda>x. x \<noteq> c) (rev (a @ c # b)) = rev b"
    by simp
  then show ?thesis
    unfolding after_last_def by (simp only: rev_rev_ident)
qed

text \<open>
  The index \<open>[1]\<close> of \<open>strip_namespace\<close> is always in range, a name without the
  delimiter is returned unchanged, and a name with exactly one delimiter (the form
  \<open>{uri}local\<close>) loses everything up to the delimiter.
\<close>

lemma strip_namespace_plain: "CHR ''}'' \<notin> set tg \<Longrightarrow> strip_namespace tg = tg"
  by (simp add: strip_namespace_def)

lemma strip_namespace_one_delimiter:
  assumes "CHR ''}'' \<notin> set a" and "CHR ''}'' \<notin> set b"
  shows "strip_namespace (a @ CHR ''}'' # b) = b"
    and "strip_namespace (a @ CHR ''}'' # b) = after_last (CHR ''}'') (a @ CHR ''}'' # b)"
  using assms by (simp_all add: strip_namespace_def split_on_append split_on_absent after_last_append)

lemma one_delimiter_split:
  assumes "c \<in> set s" and "length (filter (\<lambda>x. x = c) s) \<le> 1"
  shows "\<exists>a b. s = a @ c # b \<and> c \<notin> set a \<and> c \<notin> set b"
proof -
  from assms(1) obtain a b where s: "s = a @ c # b" and a: "c \<notin> set a"
    by (auto dest: split_list_first)
  from assms(2) s have "filter (\<lambda>x. x = c) b = []" by simp
  then have "c \<notin> set b" by (auto simp: filter_empty_conv)
  with s a show ?thesis by blast
qed

text \<open>
  Outside the names of a parsed document: with two delimiters \<open>tag.split('}')[1]\<close> is the
  piece between the first and the second, not the piece after the last. The parser builds
  no such name: a name is \<open>local\<close> or \<open>{uri}local\<close>, the delimiter is not a name character,
  and a namespace URI with the delimiter in it is a parse error, so that the file is
  skipped before any name is stripped.
\<close>

lemma strip_namespace_two_delimiters:
  "strip_namespace ''{urn:a}b}Stop'' = ''b'' \<and> after_last (CHR ''}'') ''{urn:a}b}Stop'' = ''Stop''"
  by (simp add: strip_namespace_def after_last_def)

text \<open>
  Claim C6. For every tag or attribute name of a parsed document, that is every name in
  which the namespace delimiter \<open>}\<close> occurs at most once (\<open>local\<close> or \<open>{uri}local\<close>):
  if the name contains the delimiter, namespace stripping keeps the part after the last
  occurrence of the delimiter, and a name without the delimiter is returned unchanged.
\<close>

theorem strip_namespace_local_part:
  assumes "length (filter (\<lambda>c. c = CHR ''}'') tg) \<le> 1"
  shows "(CHR ''}'' \<in> set tg \<longrightarrow> strip_namespace tg = after_last (CHR ''}'') tg)
       \<and> (CHR ''}'' \<notin> set tg \<longrightarrow> strip_namespace tg = tg)"
proof (intro conjI impI)
  assume "CHR ''}'' \<in> set tg"
  with assms obtain a b where "tg = a @ CHR ''}'' # b" "CHR ''}'' \<notin> set a" "CHR ''}'' \<notin> set b"
    using one_delimiter_split[of "CHR ''}''" tg] by blast
  then show "strip_namespace tg = after_last (CHR ''}'') tg"
    by (simp add: strip_namespace_one_delimiter(2))
next
  assume "CHR ''}'' \<notin> set tg"
  then show "strip_namespace tg = tg" by (rule strip_namespace_plain)
qed

theorem strip_namespace_local_part_witness:
  "length (filter (\<lambda>c. c = CHR ''}'') ''{urn:a}Stop'') \<le> 1
   \<and> CHR ''}'' \<in> set ''{urn:a}Stop''
   \<and> strip_namespace ''{urn:a}Stop'' = ''Stop''
   \<and> after_last (CHR ''}'') ''{urn:a}Stop'' = ''Stop''"
  using strip_namespace_local_part [of "''{urn:a}Stop''"]
  by (simp add: after_last_def)

subsection \<open>Dictionaries\<close>

lemma write_all_Nil [simp]: "write_all [] st = st"
  by (simp add: write_all_def)

lemma write_all_Cons [simp]:
  "write_all ((k, v) # ws) (r, f) = write_all ws (AList.update k v r, insert k f)"
  by (simp add: write_all_def)

lemma write_all_append [simp]: "write_all (xs @ ys) st = write_all ys (write_all xs st)"
  by (simp add: write_all_def)

lemma put_all_Nil [simp]: "put_all [] r = r"
  by (simp add: put_all_def)

lemma put_all_Cons [simp]: "put_all ((k, v) # ws) r = put_all ws (AList.update k v r)"
  by (simp add: put_all_def)

lemma put_all_append [simp]: "put_all (xs @ ys) r = put_all ys (put_all xs r)"
  by (simp add: put_all_def)

lemma write_all_eq: "write_all ws (r, f) = (put_all ws r, f \<union> fst ` set ws)"
  by (induction ws arbitrary: r f) auto

lemma keys_update: "fst ` set (AList.update k v r) = insert k (fst ` set r)"
  by (simp add: dom_update)

lemma keys_put_all: "fst ` set (put_all ws r) = fst ` set r \<union> fst ` set ws"
proof (induction ws arbitrary: r)
  case Nil
  show ?case by simp
next
  case (Cons w ws)
  obtain k v where w: "w = (k, v)" by (cases w)
  show ?case by (simp add: w Cons.IH keys_update)
qed


lemma fold_attrs_write:
  "fold (\<lambda>(n, v) (r, f). (AList.update (k n) v r, insert (k n) f)) attrs st
   = write_all (map (\<lambda>(n, v). (k n, v)) attrs) st"
  by (induction attrs arbitrary: st) auto

subsection \<open>The fallback\<close>

lemma fold_child_records:
  assumes "\<And>c f. c \<in> set chs \<Longrightarrow> g c f = (rows c, f \<union> flds c)"
  shows "fold (\<lambda>child (records, f). case g child f of
                 (child_records, f') \<Rightarrow> (records @ child_records, f')) chs (rs, f0)
       = (rs @ concat (map rows chs), f0 \<union> \<Union> (flds ` set chs))"
  using assms by (induction chs arbitrary: rs f0) auto

lemma flatten_nested_records_eq:
  "flatten_nested_records e pp pd fn = (fallback_rows e pd, fn \<union> fallback_fields e)"
proof (induction e arbitrary: pp pd fn)
  case (Element tg attrs tx chs)
  have kids: "fold (\<lambda>child (records, f).
                 case flatten_nested_records child cp cd f of
                   (child_records, f') \<Rightarrow> (records @ child_records, f')) chs ([], f0)
     = ([] @ concat (map (\<lambda>c. fallback_rows c cd) chs), f0 \<union> \<Union> (fallback_fields ` set chs))"
    for cp cd f0
    by (rule fold_child_records) (simp add: Element.IH)
  show ?case
    by (simp add: Let_def fold_attrs_write write_all_eq node_items_def kids Un_assoc
             split: prod.splits)
qed



lemma fallback_rows_empty: "\<not> has_content e \<Longrightarrow> fallback_rows e [] = []"
proof (induction e)
  case (Element tg attrs tx chs)
  then have n: "node_items tg attrs tx = []"
    and k: "\<And>c. c \<in> set chs \<Longrightarrow> \<not> has_content c"
    by (auto simp: node_items_def list_ex_iff)
  show ?case using Element.IH k by (simp add: n Let_def)
qed

lemma fallback_rows_keys:
  "r \<in> set (fallback_rows e pd) \<Longrightarrow> fst ` set r \<subseteq> fst ` set pd \<union> fallback_fields e"
proof (induction e arbitrary: pd)
  case (Element tg attrs tx chs)
  let ?cd = "put_all (node_items tg attrs tx) pd"
  show ?case
  proof (cases chs)
    case Nil
    with Element.prems have "r = ?cd" by (auto simp: Let_def split: if_splits)
    then show ?thesis by (auto simp: keys_put_all)
  next
    case (Cons c cs)
    with Element.prems obtain d where d: "d \<in> set chs" "r \<in> set (fallback_rows d ?cd)"
      by (auto simp: Let_def)
    from Element.IH[OF d] have "fst ` set r \<subseteq> fst ` set ?cd \<union> fallback_fields d" .
    with d(1) show ?thesis by (auto simp: keys_put_all)
  qed
qed

lemma fallback_fields_dot: "k \<in> fallback_fields e \<Longrightarrow> CHR ''.'' \<in> set k"
  by (induction e) (auto simp: node_items_def split: if_splits)

lemma fold_records_cong:
  assumes "\<And>child f. child \<in> set chs \<Longrightarrow> g child f = h child f"
  shows "fold (\<lambda>child (records, f). let (child_records, f') = g child f
                                      in (records @ child_records, f')) chs s0
       = fold (\<lambda>child (records, f). let (child_records, f') = h child f
                                      in (records @ child_records, f')) chs s0"
  using assms by (intro fold_cong) (auto simp: fun_eq_iff)

text \<open>
  Claim C10. In the fallback the branch for children that all share one tag and the branch
  for mixed children run the same loop, so \<open>flatten_nested_records\<close> is equal to
  \<open>flatten_simplified\<close>, the same function without the test: the records and the
  registered field names agree for every element, parent path, inherited data and field set.
\<close>

theorem flatten_nested_records_simplified:
  "flatten_nested_records e parent_path parent_data fns
   = flatten_simplified e parent_path parent_data fns"
proof (induction e arbitrary: parent_path parent_data fns)
  case (Element tg attrs tx chs)
  have loop: "\<And>cp cd s0.
     fold (\<lambda>child (records, f). let (child_records, f') = flatten_nested_records child cp cd f
                                 in (records @ child_records, f')) chs s0
   = fold (\<lambda>child (records, f). let (child_records, f') = flatten_simplified child cp cd f
                                 in (records @ child_records, f')) chs s0"
    by (rule fold_records_cong) (simp add: Element.IH)
  show ?case
    by (simp add: Let_def loop[unfolded Let_def] split: prod.splits)
qed

subsection \<open>Record-root flattening\<close>

lemma fold_children_write:
  assumes "\<And>c st. c \<in> set chs \<Longrightarrow> g c st = write_all (w c) st"
  shows "fold g chs st = write_all (concat (map w chs)) st"
  using assms by (induction chs arbitrary: st) auto

lemma flatten_element_items: "flatten_element e pfx st = write_all (items pfx e) st"
proof (induction e arbitrary: pfx st)
  case (Element tg attrs tx chs)
  obtain r f where st: "st = (r, f)" by (cases st)
  have pre: "(if pfx \<noteq> [] then pfx @ s else s) = pfx @ s" for s :: string
    by simp
  show ?case
    unfolding st
    apply (simp only: flatten_element.simps pre)
    apply (simp add: Let_def fold_attrs_write split: prod.splits)
    apply (auto intro!: fold_children_write simp: Element.IH)
    done
qed

lemma element_to_record_eq:
  "element_to_record e filepath f
   = ((if length (record_of e filepath) > 1 then record_of e filepath else []),
      f \<union> fst ` set (items [] e))"
  by (simp add: element_to_record_def flatten_element_items write_all_eq record_of_def)

lemma key_prefix_snoc: "key_prefix (anc @ [a]) = key_prefix anc @ a @ ''_''"
  by (simp add: key_prefix_def)

lemma concat_map_concat:
  "concat (map f (concat xss)) = concat (map (\<lambda>xs. concat (map f xs)) xss)"
  by (induction xss) auto

lemma items_paths:
  "items (key_prefix anc) e
   = concat (map (\<lambda>(a, el). own_items (key_prefix a) el) (element_paths anc e))"
proof (induction e arbitrary: anc)
  case (Element tg attrs tx chs)
  have "concat (map (items (key_prefix anc @ strip_namespace tg @ ''_'')) chs)
      = concat (map (\<lambda>c. concat (map (\<lambda>(a, el). own_items (key_prefix a) el)
                        (element_paths (anc @ [strip_namespace tg]) c))) chs)"
    by (rule arg_cong[where f=concat], rule map_cong)
       (simp_all add: Element.IH[symmetric] key_prefix_snoc)
  then show ?case
    by (simp add: own_items_def concat_map_concat comp_def)
qed

lemma element_paths_root:
  "(a, el) \<in> set (element_paths anc e) \<Longrightarrow>
     (a = anc \<and> el = e) \<or> (\<exists>rest. a = anc @ strip_namespace (tag e) # rest)"
proof (induction e arbitrary: anc)
  case (Element tg attrs tx chs)
  show ?case
  proof (cases "(a, el) = (anc, Element tg attrs tx chs)")
    case True
    then show ?thesis by simp
  next
    case False
    with Element.prems obtain c where c: "c \<in> set chs"
      "(a, el) \<in> set (element_paths (anc @ [strip_namespace tg]) c)" by auto
    from Element.IH[OF c] show ?thesis by auto
  qed
qed

lemma items_keys_prefix:
  "(k, v) \<in> set (items pfx e) \<Longrightarrow> prefix (pfx @ strip_namespace (tag e)) k"
proof (induction e arbitrary: pfx)
  case (Element tg attrs tx chs)
  from Element.prems have
    "(\<exists>n. k = pfx @ strip_namespace tg @ ''_@'' @ strip_namespace n)
     \<or> k = pfx @ strip_namespace tg
     \<or> (\<exists>c \<in> set chs. (k, v) \<in> set (items (pfx @ strip_namespace tg @ ''_'') c))"
    by (auto split: if_splits)
  then show ?case
  proof (elim disjE exE bexE)
    fix n assume "k = pfx @ strip_namespace tg @ ''_@'' @ strip_namespace n"
    then show ?thesis by (simp add: prefix_def)
  next
    assume "k = pfx @ strip_namespace tg"
    then show ?thesis by simp
  next
    fix c assume c: "c \<in> set chs" "(k, v) \<in> set (items (pfx @ strip_namespace tg @ ''_'') c)"
    from Element.IH[OF c]
    have "prefix ((pfx @ strip_namespace tg @ ''_'') @ strip_namespace (tag c)) k" .
    then obtain zs where
      "k = ((pfx @ strip_namespace tg @ ''_'') @ strip_namespace (tag c)) @ zs"
      by (auto simp: prefix_def)
    then show ?thesis by (simp add: prefix_def)
  qed
qed

lemma record_of_keys:
  "fst ` set (record_of e filepath) = insert ''source_file'' (fst ` set (items [] e))"
  by (simp add: record_of_def keys_put_all)

text \<open>
  Claim C7, as stated, fails. The record root \<open><Stop id="7"><Name>Main St</Name></Stop>\<close>
  gives the keys \<open>Stop_@id\<close> and \<open>Stop_Name\<close>: the record root's own tag is the first
  component of every key, it is not left out.
\<close>

theorem element_to_record_keeps_root_tag:
  "fst (element_to_record
          (Element ''Stop'' [(''id'', ''7'')] None [Element ''Name'' [] (Some ''Main St'') []])
          ''data/a.xml'' {''source_file''})
   = [(''source_file'', ''a.xml''), (''Stop_@id'', ''7''), (''Stop_Name'', ''Main St'')]
   \<and> prefix ''Stop'' ''Stop_@id'' \<and> prefix ''Stop'' ''Stop_Name''"
  by (simp add: element_to_record_def path_name_def strip_namespace_def has_text_def
                text_strip_def strip_def lstrip_def rstrip_def isspace_def whitespace_def Let_def)

text \<open>
  Claim C7, amended. In record-root flattening the writes are, element by element in
  document order, the element's own attributes and text under the prefix made of the local
  tag names of its ancestors joined by underscores, where the ancestors start with the
  record root itself: the ancestor list of every element below the record root begins with
  the record root's local tag. Hence every key of the record other than \<open>source_file\<close>
  begins with the record root's local tag name.
\<close>

theorem flatten_element_key_prefix:
  "flatten_element e [] (record, fns)
     = write_all (concat (map (\<lambda>(anc, el). own_items (key_prefix anc) el)
                              (element_paths [] e))) (record, fns)
   \<and> (\<forall>(anc, el) \<in> set (element_paths [] e).
         (anc = [] \<and> el = e) \<or> (\<exists>rest. anc = strip_namespace (tag e) # rest))
   \<and> (\<forall>k \<in> fst ` set (fst (element_to_record e filepath fns)).
         k = ''source_file'' \<or> prefix (strip_namespace (tag e)) k)"
proof (intro conjI)
  have "items [] e = concat (map (\<lambda>(anc, el). own_items (key_prefix anc) el)
                               (element_paths [] e))"
    using items_paths[of "[]" e] by (simp add: key_prefix_def)
  then show "flatten_element e [] (record, fns)
     = write_all (concat (map (\<lambda>(anc, el). own_items (key_prefix anc) el)
                              (element_paths [] e))) (record, fns)"
    by (simp add: flatten_element_items)
next
  show "\<forall>(anc, el) \<in> set (element_paths [] e).
         (anc = [] \<and> el = e) \<or> (\<exists>rest. anc = strip_namespace (tag e) # rest)"
    using element_paths_root[of _ _ "[]" e] by auto
next
  show "\<forall>k \<in> fst ` set (fst (element_to_record e filepath fns)).
         k = ''source_file'' \<or> prefix (strip_namespace (tag e)) k"
  proof
    fix k assume "k \<in> fst ` set (fst (element_to_record e filepath fns))"
    then have "k \<in> fst ` set (record_of e filepath)"
      by (auto simp: element_to_record_eq split: if_splits)
    then have "k = ''source_file'' \<or> k \<in> fst ` set (items [] e)"
      by (simp add: record_of_keys)
    then show "k = ''source_file'' \<or> prefix (strip_namespace (tag e)) k"
      using items_keys_prefix[of k _ "[]" e] by auto
  qed
qed

theorem flatten_element_key_prefix_witness:
  "([''Stop''], Element ''Name'' [] (Some ''Main St'') [])
     \<in> set (element_paths []
          (Element ''Stop'' [(''id'', ''7'')] None [Element ''Name'' [] (Some ''Main St'') []]))
   \<and> ''Stop_Name'' \<in> fst ` set (fst (element_to_record
          (Element ''Stop'' [(''id'', ''7'')] None [Element ''Name'' [] (Some ''Main St'') []])
          ''data/a.xml'' {''source_file''}))
   \<and> prefix ''Stop'' ''Stop_Name''"
proof -
  let ?e = "Element ''Stop'' [(''id'', ''7'')] None [Element ''Name'' [] (Some ''Main St'') []]"
  have path: "([''Stop''], Element ''Name'' [] (Some ''Main St'') []) \<in> set (element_paths [] ?e)"
    by (simp add: strip_namespace_def)
  have key: "''Stop_Name'' \<in> fst ` set (fst (element_to_record ?e ''data/a.xml'' {''source_file''}))"
    by (simp add: element_to_record_def path_name_def strip_namespace_def has_text_def
                  text_strip_def strip_def lstrip_def rstrip_def isspace_def whitespace_def Let_def)
  from flatten_element_key_prefix
         [of ?e "[(''source_file'', ''a.xml'')]" "{''source_file''}" "''data/a.xml''"]
  have "\<forall>k \<in> fst ` set (fst (element_to_record ?e ''data/a.xml'' {''source_file''})).
          k = ''source_file'' \<or> prefix (strip_namespace (tag ?e)) k"
    by (rule conjunct2[THEN conjunct2])
  with key have "''Stop_Name'' = ''source_file'' \<or> prefix (strip_namespace (tag ?e)) ''Stop_Name''"
    by (rule bspec[rotated])
  then have "prefix ''Stop'' ''Stop_Name''"
    by (simp add: strip_namespace_def)
  with path key show ?thesis by (intro conjI)
qed

subsection \<open>Column order\<close>

lemma first_occ_set: "set (first_occ seen xs) = set xs - set seen"
  by (induction xs arbitrary: seen) auto

lemma first_occ_fresh: "set (first_occ seen xs) \<inter> set seen = {}"
  by (auto simp: first_occ_set)

lemma first_occ_distinct: "distinct (first_occ seen xs)"
  by (induction xs arbitrary: seen) (auto simp: first_occ_set)

lemma fold_order_step:
  "distinct s \<Longrightarrow> set seen \<inter> set s = {} \<Longrightarrow>
   fold order_step ps (acc, s)
   = (acc @ [p \<leftarrow> first_occ seen ps. p \<in> set s], [x \<leftarrow> s. x \<notin> set ps])"
proof (induction ps arbitrary: acc s seen)
  case Nil
  then show ?case by simp
next
  case (Cons p ps)
  show ?case
  proof (cases "p \<in> set s")
    case True
    then have pseen: "p \<notin> set seen" using Cons.prems by auto
    have d: "distinct (remove1 p s)" using Cons.prems by simp
    have disj: "set (p # seen) \<inter> set (remove1 p s) = {}" using Cons.prems by auto
    have f1: "[q \<leftarrow> first_occ (p # seen) ps. q \<in> set (remove1 p s)]
            = [q \<leftarrow> first_occ (p # seen) ps. q \<in> set s]"
      using first_occ_fresh[of "p # seen" ps] Cons.prems(1)
      by (intro filter_cong) auto
    have "remove1 p s = [x \<leftarrow> s. p \<noteq> x]"
      using Cons.prems(1) by (simp add: distinct_remove1_removeAll removeAll_filter_not_eq)
    then have f2: "[x \<leftarrow> remove1 p s. x \<notin> set ps] = [x \<leftarrow> s. x \<notin> set (p # ps)]"
      by (auto intro: filter_cong)
    show ?thesis
      using True pseen Cons.IH[OF d disj, of "acc @ [p]"] f1 f2
      by (simp add: order_step_def)
  next
    case False
    have disj: "set (p # seen) \<inter> set s = {}" using Cons.prems False by auto
    have f2: "[x \<leftarrow> s. x \<notin> set ps] = [x \<leftarrow> s. x \<notin> set (p # ps)]"
      using False by (intro filter_cong) auto
    show ?thesis
    proof (cases "p \<in> set seen")
      case True
      with False Cons.IH[OF Cons.prems(1) Cons.prems(2), of acc] f2 show ?thesis
        by (simp add: order_step_def)
    next
      case pn: False
      with False Cons.IH[OF Cons.prems(1) disj, of acc] f2 show ?thesis
        by (simp add: order_step_def)
    qed
  qed
qed

lemma sort_distinct:
  "distinct (ys :: string list) \<Longrightarrow> sort ys = sorted_list_of_set (set ys)"
  by (simp only: sorted_list_of_set_sort_remdups distinct_remdups_id)

lemma column_order_eq:
  assumes "distinct enum"
  shows "column_order enum = [p \<leftarrow> first_occ [] priority_fields. p \<in> set enum]
            @ sorted_list_of_set (set enum - set priority_fields)"
proof -
  have "fold order_step priority_fields ([], sort enum)
        = ([] @ [p \<leftarrow> first_occ [] priority_fields. p \<in> set (sort enum)],
           [x \<leftarrow> sort enum. x \<notin> set priority_fields])"
    using assms by (intro fold_order_step) auto
  moreover have "[x \<leftarrow> sort enum. x \<notin> set priority_fields]
        = sorted_list_of_set (set enum - set priority_fields)"
  proof -
    have "[x \<leftarrow> sort enum. x \<notin> set priority_fields]
          = sort [x \<leftarrow> enum. x \<notin> set priority_fields]"
      by (simp add: filter_sort)
    also have "\<dots> = sorted_list_of_set (set [x \<leftarrow> enum. x \<notin> set priority_fields])"
      using assms by (intro sort_distinct) simp
    also have "set [x \<leftarrow> enum. x \<notin> set priority_fields] = set enum - set priority_fields"
      by auto
    finally show ?thesis .
  qed
  ultimately show ?thesis
    by (simp add: column_order_def order_step_def[abs_def] Let_def)
qed

lemma column_order_set: "distinct enum \<Longrightarrow> set (column_order enum) = set enum"
  by (auto simp: column_order_eq first_occ_set)

lemma column_order_distinct: "distinct enum \<Longrightarrow> distinct (column_order enum)"
  by (auto simp: column_order_eq first_occ_set first_occ_distinct)

text \<open>
  Claim C2. Whatever order the set of registered keys is enumerated in, the column order
  is: the names of the priority list that are registered, in the order of the list and each
  once (at its first occurrence: \<open>Time\<close> stands twice in the list), followed by the other
  registered keys in lexicographic order. The columns are exactly the registered keys, each
  once, and every column that is a priority name stands before every column that is not.
\<close>

theorem column_order_priority_then_sorted:
  assumes "distinct enum" and "set enum = F"
  shows "column_order enum
           = [p \<leftarrow> first_occ [] priority_fields. p \<in> F]
             @ sorted_list_of_set (F - set priority_fields)
       \<and> distinct (column_order enum) \<and> set (column_order enum) = F
       \<and> (\<forall>i j. i < length (column_order enum) \<and> j < length (column_order enum)
                \<and> column_order enum ! i \<in> set priority_fields
                \<and> column_order enum ! j \<notin> set priority_fields \<longrightarrow> i < j)"
proof -
  let ?A = "[p \<leftarrow> first_occ [] priority_fields. p \<in> F]"
  let ?B = "sorted_list_of_set (F - set priority_fields)"
  have eq: "column_order enum = ?A @ ?B"
    using assms column_order_eq[of enum] by simp
  have A: "set ?A \<subseteq> set priority_fields" by (auto simp: first_occ_set)
  have "finite F" using assms(2) by auto
  then have B: "set ?B \<inter> set priority_fields = {}" by auto
  have order: "i < j"
    if "i < length (?A @ ?B)" "j < length (?A @ ?B)"
       "(?A @ ?B) ! i \<in> set priority_fields" "(?A @ ?B) ! j \<notin> set priority_fields" for i j
  proof -
    have "i < length ?A"
    proof (rule ccontr)
      assume "\<not> i < length ?A"
      then have "(?A @ ?B) ! i = ?B ! (i - length ?A)" "i - length ?A < length ?B"
        using that(1) by (auto simp: nth_append)
      then have "(?A @ ?B) ! i \<in> set ?B" by (metis nth_mem)
      with B that(3) show False by blast
    qed
    moreover have "\<not> j < length ?A"
    proof
      assume "j < length ?A"
      then have "(?A @ ?B) ! j = ?A ! j" by (simp only: nth_append if_True)
      moreover from \<open>j < length ?A\<close> have "?A ! j \<in> set ?A" by (rule nth_mem)
      ultimately have "(?A @ ?B) ! j \<in> set ?A" by (simp only:)
      with A that(4) show False by blast
    qed
    ultimately show ?thesis by simp
  qed
  show ?thesis
    unfolding eq[symmetric]
    using eq assms column_order_set[of enum] column_order_distinct[of enum] order
    by (simp del: filter_filter)
qed

theorem column_order_priority_then_sorted_witness:
  "distinct [''b'', ''Time'', ''source_file'', ''a'', ''Stop'']
   \<and> column_order [''b'', ''Time'', ''source_file'', ''a'', ''Stop'']
       = [''source_file'', ''Stop'', ''Time'', ''a'', ''b'']
   \<and> set (column_order [''b'', ''Time'', ''source_file'', ''a'', ''Stop''])
       = set [''b'', ''Time'', ''source_file'', ''a'', ''Stop'']"
proof -
  have d: "distinct [''b'', ''Time'', ''source_file'', ''a'', ''Stop'']" by simp
  have v: "column_order [''b'', ''Time'', ''source_file'', ''a'', ''Stop'']
           = [''source_file'', ''Stop'', ''Time'', ''a'', ''b'']"
    by code_simp
  from column_order_priority_then_sorted[OF d refl]
  have "set (column_order [''b'', ''Time'', ''source_file'', ''a'', ''Stop''])
        = set [''b'', ''Time'', ''source_file'', ''a'', ''Stop'']"
    by (rule conjunct2[THEN conjunct2, THEN conjunct1])
  with d v show ?thesis by (intro conjI)
qed

subsection \<open>Record classification\<close>

lemma collect_records_eq:
  "collect_records els fp (records, self)
   = (records @ collect_rows els fp,
      self\<lparr>field_names := field_names self \<union> elems_fields els\<rparr>)"
proof (induction els arbitrary: records self)
  case Nil
  show ?case by (simp add: collect_records_def collect_rows_def elems_fields_def)
next
  case (Cons e es)
  have step: "collect_records (e # es) fp (records, self)
      = collect_records es fp
          ((if 1 < length (record_of e fp) then records @ [record_of e fp] else records),
           self\<lparr>field_names := field_names self \<union> fst ` set (items [] e)\<rparr>)"
    by (simp add: collect_records_def element_to_record_eq Let_def)
  show ?case
    unfolding step Cons.IH
    by (simp add: collect_rows_def elems_fields_def Un_assoc)
qed


lemma scan_patterns_inv:
  assumes "I (records, self)"
    and "\<And>line rs sf. I (rs, sf) \<Longrightarrow> I (rs, print line sf)"
    and "\<And>els rs sf. I (rs, sf) \<Longrightarrow> I (collect_records els fp (rs, sf))"
  shows "I (snd (scan_patterns pats root fp (records, self)))"
  using assms(1)
proof (induction pats arbitrary: records self)
  case Nil
  then show ?case by simp
next
  case (Cons p ps)
  let ?els = "findall p root"
  show ?case
  proof (cases "?els \<noteq> [] \<and> length ?els > 1")
    case False
    then show ?thesis using Cons by (auto simp: Let_def)
  next
    case True
    let ?line = "''  '' @ arrow @ '' Found '' @ str_nat (length ?els) @ '' '' @ quoted p @ '' elements''"
    obtain rs sf where c: "collect_records ?els fp (records, print ?line self) = (rs, sf)"
      by (cases "collect_records ?els fp (records, print ?line self)")
    have "I (rs, sf)" using assms(3)[OF assms(2)[OF Cons.prems], of ?els ?line] c by simp
    then show ?thesis using True c Cons.IH[of rs sf] by (auto simp: Let_def)
  qed
qed

lemma scan_children_inv:
  assumes "I (records, self)"
    and "\<And>line rs sf. I (rs, sf) \<Longrightarrow> I (rs, print line sf)"
    and "\<And>els rs sf. I (rs, sf) \<Longrightarrow> I (collect_records els fp (rs, sf))"
  shows "I (snd (scan_children chs fp (records, self)))"
  using assms(1)
proof (induction chs arbitrary: records self)
  case Nil
  then show ?case by simp
next
  case (Cons c cs)
  let ?els = "children c"
  show ?case
  proof (cases "?els \<noteq> [] \<and> card (set (map tag ?els)) = 1 \<and> length ?els > 1")
    case False
    then show ?thesis using Cons by (auto simp: Let_def)
  next
    case True
    let ?line = "''  '' @ arrow @ '' Found collection of '' @ str_nat (length ?els) @ '' ''
                 @ quoted (tag (hd ?els)) @ '' elements''"
    obtain rs sf where c: "collect_records ?els fp (records, print ?line self) = (rs, sf)"
      by (cases "collect_records ?els fp (records, print ?line self)")
    have "I (rs, sf)" using assms(3)[OF assms(2)[OF Cons.prems], of ?els ?line] c by simp
    then show ?thesis using True c Cons.IH[of rs sf] by (auto simp: Let_def)
  qed
qed

lemma extract_records_smart_inv:
  assumes "I ([], self)"
    and p: "\<And>line rs sf. I (rs, sf) \<Longrightarrow> I (rs, print line sf)"
    and c: "\<And>els rs sf. I (rs, sf) \<Longrightarrow> I (collect_records els fp (rs, sf))"
  shows "I (extract_records_smart root fp self)"
proof -
  obtain b1 r1 s1 where s1: "scan_patterns journey_patterns root fp ([], self) = (b1, r1, s1)"
    by (cases "scan_patterns journey_patterns root fp ([], self)") auto
  have i1: "I (r1, s1)" using scan_patterns_inv[of I "[]" self fp journey_patterns root, OF assms] s1 by simp
  obtain b2 r2 s2 where s2: "scan_children (children root) fp (r1, s1) = (b2, r2, s2)"
    by (cases "scan_children (children root) fp (r1, s1)") auto
  have i2: "I (r2, s2)" using scan_children_inv[of I r1 s1 fp "children root", OF i1 p c] s2 by simp
  show ?thesis
    using s1 s2 i1 i2 p[OF i2] c[OF p[OF i2]]
    by (auto simp: extract_records_smart_def Let_def)
qed

subsection \<open>One file\<close>

lemma process_xml_file_Parsed:
  "process_xml_file fp (Parsed root) self =
     (case extract_records_smart root fp (header_printed fp root self) of
        (rs, sf) \<Rightarrow>
          if rs = []
          then ((map (fill_source fp) (fallback_rows root []),
                 length (fallback_rows root [])),
                print (extracted_line (length (fallback_rows root [])))
                  ((print fallback_line sf)
                     \<lparr>field_names := field_names sf \<union> fallback_fields root\<rparr>))
          else ((map (fill_source fp) rs, length rs), print (extracted_line (length rs)) sf))"
  by (simp add: process_xml_file_def header_printed_def fill_source_def[abs_def] extracted_line_def
                fallback_line_def Let_def flatten_nested_records_eq print_def split: prod.splits)

lemma grows_refl: "grows self self"
  by (simp add: grows_def)

lemma grows_trans: "grows a b \<Longrightarrow> grows b c \<Longrightarrow> grows a c"
  by (auto simp: grows_def)

lemma grows_print: "grows self sf \<Longrightarrow> grows self (print line sf)"
  by (auto simp: grows_def print_def prefix_def)

lemma grows_fields: "grows self sf \<Longrightarrow> grows self (sf\<lparr>field_names := field_names sf \<union> A\<rparr>)"
  by (auto simp: grows_def)

lemma extract_records_smart_grows: "grows self (snd (extract_records_smart root fp self))"
proof -
  have "(\<lambda>(rs, sf). grows self sf) (extract_records_smart root fp self)"
    by (rule extract_records_smart_inv)
       (auto simp: grows_refl grows_print collect_records_eq grows_fields)
  then show ?thesis by (simp add: split_beta)
qed

lemma header_printed_grows: "grows self (header_printed fp root self)"
  by (simp add: header_printed_def grows_print grows_refl)

lemma process_xml_file_grows: "grows self (snd (process_xml_file fp src self))"
proof (cases src)
  case (Parsed root)
  obtain rs sf where e: "extract_records_smart root fp (header_printed fp root self) = (rs, sf)"
    by (cases "extract_records_smart root fp (header_printed fp root self)")
  have "grows (header_printed fp root self) sf"
    using extract_records_smart_grows[of "header_printed fp root self" root fp] e by simp
  then have g: "grows self sf" using header_printed_grows grows_trans by blast
  show ?thesis
  proof (cases "rs = []")
    case True
    have "grows self ((print fallback_line sf)\<lparr>field_names := field_names sf \<union> fallback_fields root\<rparr>)"
      using grows_fields[OF grows_print[OF g, of fallback_line], of "fallback_fields root"]
      by (simp add: print_def)
    then show ?thesis
      by (simp add: Parsed process_xml_file_Parsed e True grows_print)
  next
    case False
    then show ?thesis
      by (simp add: Parsed process_xml_file_Parsed e grows_print g)
  qed
next
  case (ParseError m)
  then show ?thesis by (simp add: process_xml_file_def grows_print grows_refl)
next
  case (OtherError m)
  then show ?thesis by (simp add: process_xml_file_def grows_print grows_refl)
qed

lemma subset_insert_trans:
  "A \<subseteq> insert k B \<Longrightarrow> B \<subseteq> C \<Longrightarrow> k \<in> C \<Longrightarrow> A \<subseteq> C"
  by blast

lemma collect_rows_mem:
  "r \<in> set (collect_rows els fp) \<Longrightarrow> \<exists>e \<in> set els. r = record_of e fp \<and> 1 < length r"
  by (auto simp: collect_rows_def)

lemma extract_records_smart_keys:
  assumes "''source_file'' \<in> field_names self"
  shows "''source_file'' \<in> field_names (snd (extract_records_smart root fp self))
       \<and> (\<forall>r \<in> set (fst (extract_records_smart root fp self)).
             fst ` set r \<subseteq> field_names (snd (extract_records_smart root fp self)))"
proof -
  let ?I = "\<lambda>(rs :: row list, sf :: converter).
              ''source_file'' \<in> field_names sf \<and> (\<forall>r \<in> set rs. fst ` set r \<subseteq> field_names sf)"
  have "?I (extract_records_smart root fp self)"
  proof (rule extract_records_smart_inv)
    show "?I ([], self)" using assms by simp
  next
    fix line and rs :: "row list" and sf :: converter assume "?I (rs, sf)"
    then show "?I (rs, print line sf)" by (simp add: print_def)
  next
    fix els and rs :: "row list" and sf :: converter assume i: "?I (rs, sf)"
    have "fst ` set r \<subseteq> field_names sf \<union> elems_fields els" if "r \<in> set (collect_rows els fp)" for r
    proof -
      from collect_rows_mem[OF that] obtain e where e: "e \<in> set els" "r = record_of e fp" by blast
      have "fst ` set (items [] e) \<subseteq> elems_fields els"
        using e(1) unfolding elems_fields_def by (rule UN_upper)
      then have "fst ` set (items [] e) \<subseteq> field_names sf \<union> elems_fields els"
        by (rule le_supI2)
      moreover have "''source_file'' \<in> field_names sf \<union> elems_fields els"
        using i by simp
      ultimately show ?thesis
        unfolding e(2) record_of_keys by (rule insert_subsetI[rotated])
    qed
    with i show "?I (collect_records els fp (rs, sf))"
      by (auto simp: collect_records_eq)
  qed
  then show ?thesis by (simp add: split_beta)
qed

lemma fill_source_keys: "fst ` set (fill_source fp r) \<subseteq> insert ''source_file'' (fst ` set r)"
  by (auto simp: fill_source_def keys_update)

lemma fill_source_keys_present: "''source_file'' \<in> fst ` set r \<Longrightarrow> fill_source fp r = r"
  by (simp add: fill_source_def)

lemma process_xml_file_keys:
  assumes "''source_file'' \<in> field_names self"
  shows "\<forall>r \<in> set (fst (fst (process_xml_file fp src self))).
           fst ` set r \<subseteq> field_names (snd (process_xml_file fp src self))"
proof (cases src)
  case (Parsed root)
  obtain rs sf where e: "extract_records_smart root fp (header_printed fp root self) = (rs, sf)"
    by (cases "extract_records_smart root fp (header_printed fp root self)")
  have h: "''source_file'' \<in> field_names (header_printed fp root self)"
    using assms by (simp add: header_printed_def print_def)
  from extract_records_smart_keys[OF h, of root fp] e
  have k: "''source_file'' \<in> field_names sf" "\<forall>r \<in> set rs. fst ` set r \<subseteq> field_names sf"
    by simp_all
  show ?thesis
  proof (cases "rs = []")
    case True
    have "fst ` set (fill_source fp r) \<subseteq> field_names sf \<union> fallback_fields root"
      if "r \<in> set (fallback_rows root [])" for r
    proof (rule subset_insert_trans[OF fill_source_keys])
      show "fst ` set r \<subseteq> field_names sf \<union> fallback_fields root"
      proof (rule le_supI2)
        show "fst ` set r \<subseteq> fallback_fields root"
          using fallback_rows_keys[OF that] by simp
      qed
      show "''source_file'' \<in> field_names sf \<union> fallback_fields root"
        using k(1) by (rule UnI1)
    qed
    then show ?thesis
      by (simp add: Parsed process_xml_file_Parsed e True print_def)
  next
    case False
    have "fst ` set (fill_source fp r) \<subseteq> field_names sf" if "r \<in> set rs" for r
    proof (rule subset_insert_trans[OF fill_source_keys])
      show "fst ` set r \<subseteq> field_names sf" using k(2) that by (rule bspec)
      show "''source_file'' \<in> field_names sf" by (rule k(1))
    qed
    then show ?thesis
      by (simp add: Parsed process_xml_file_Parsed e False print_def)
  qed
next
  case (ParseError m)
  then show ?thesis by (simp add: process_xml_file_def)
next
  case (OtherError m)
  then show ?thesis by (simp add: process_xml_file_def)
qed





subsection \<open>All files\<close>

lemma process_all_files_eq:
  "process_all_files listing self =
     (case find_xml_files listing self of
        (xml_files, sf) \<Rightarrow>
          if xml_files = []
          then (0, print (''No XML files found in: '' @ xml_folder sf) sf)
          else process_files xml_files
                 (0, print (CHR 0x0A # ''Found '' @ str_nat (length xml_files) @ '' XML file(s)'') sf))"
  by (simp add: process_all_files_def process_files_def Let_def split: prod.splits)

lemma process_files_Nil: "process_files [] st = st"
  by (simp add: process_files_def)

lemma process_files_Cons:
  "process_files ((fp, src) # rest) (n, self) =
     process_files rest
       (n + snd (fst (process_xml_file fp src self)),
        (snd (process_xml_file fp src self))
          \<lparr>extracted_data := extracted_data (snd (process_xml_file fp src self))
                              @ fst (fst (process_xml_file fp src self))\<rparr>)"
  by (simp add: process_files_def Let_def split: prod.splits)

lemma process_files_append:
  "process_files (xs @ ys) st = process_files ys (process_files xs st)"
  by (simp add: process_files_def)

lemma file_step_registered:
  assumes "registered self"
  shows "registered ((snd (process_xml_file fp src self))
          \<lparr>extracted_data := extracted_data (snd (process_xml_file fp src self))
                              @ fst (fst (process_xml_file fp src self))\<rparr>)"
proof -
  let ?sf = "snd (process_xml_file fp src self)"
  have g: "grows self ?sf" by (rule process_xml_file_grows)
  have s: "''source_file'' \<in> field_names self" using assms by (simp add: registered_def)
  have new: "\<forall>r \<in> set (fst (fst (process_xml_file fp src self))). fst ` set r \<subseteq> field_names ?sf"
    using s by (rule process_xml_file_keys)
  have old: "\<forall>r \<in> set (extracted_data ?sf). fst ` set r \<subseteq> field_names ?sf"
  proof
    fix r assume "r \<in> set (extracted_data ?sf)"
    then have "r \<in> set (extracted_data self)" using g by (simp add: grows_def)
    then have "fst ` set r \<subseteq> field_names self" using assms by (simp add: registered_def)
    also have "field_names self \<subseteq> field_names ?sf" using g by (simp add: grows_def)
    finally show "fst ` set r \<subseteq> field_names ?sf" .
  qed
  have "''source_file'' \<in> field_names ?sf" using s g unfolding grows_def by (elim conjE) (rule subsetD)
  with new old show ?thesis
    by (simp add: registered_def ball_Un)
qed

lemma process_files_registered:
  "registered self \<Longrightarrow> registered (snd (process_files files (n, self)))"
proof (induction files arbitrary: n self)
  case Nil
  then show ?case by (simp add: process_files_Nil)
next
  case (Cons f files)
  obtain fp src where f: "f = (fp, src)" by (cases f)
  show ?case
    unfolding f process_files_Cons
    by (rule Cons.IH) (rule file_step_registered[OF Cons.prems])
qed

lemma registered_init: "registered (init folder)"
  by (simp add: registered_def init_def)

lemma registered_print: "registered self \<Longrightarrow> registered (print line self)"
  by (simp add: registered_def print_def)

lemma registered_find: "registered self \<Longrightarrow> registered (snd (find_xml_files listing self))"
  by (simp add: registered_def find_xml_files_def Let_def)

lemma process_all_files_registered:
  assumes "registered self"
  shows "registered (snd (process_all_files listing self))"
proof -
  obtain xs sf where e: "find_xml_files listing self = (xs, sf)" by (cases "find_xml_files listing self")
  have r: "registered sf" using registered_find[OF assms, of listing] e by simp
  show ?thesis
    by (simp add: process_all_files_eq e registered_print[OF r]
                  process_files_registered[OF registered_print[OF r]])
qed
lemma flatten_element_keys:
  "fst ` set record \<subseteq> fns \<Longrightarrow>
   fst ` set (fst (flatten_element e pfx (record, fns))) \<subseteq> snd (flatten_element e pfx (record, fns))"
  by (auto simp: flatten_element_items write_all_eq keys_put_all)

lemma flatten_nested_records_keys:
  assumes "fst ` set pd \<subseteq> fns" and "r \<in> set (fst (flatten_nested_records e pp pd fns))"
  shows "fst ` set r \<subseteq> snd (flatten_nested_records e pp pd fns)"
proof -
  from assms(2) have "r \<in> set (fallback_rows e pd)" by (simp add: flatten_nested_records_eq)
  then have "fst ` set r \<subseteq> fst ` set pd \<union> fallback_fields e" by (rule fallback_rows_keys)
  also have "\<dots> \<subseteq> fns \<union> fallback_fields e" using assms(1) by (rule Un_mono) (rule subset_refl)
  finally show ?thesis by (simp add: flatten_nested_records_eq)
qed

lemma dict_to_list_Some:
  "fst ` set r \<subseteq> set fieldnames \<Longrightarrow> dict_to_list fieldnames r \<noteq> None"
  by (auto simp: dict_to_list_def list_ex_iff)

lemma save_to_csv_written:
  assumes "extracted_data self \<noteq> []"
    and "\<forall>row \<in> set (extracted_data self). fst ` set row \<subseteq> set (column_order enum)"
    and "''source_file'' \<in> set (column_order enum)"
  shows "save_to_csv self enum \<noteq> None"
proof -
  define fill where "fill = (\<lambda>r :: row. if ''source_file'' \<notin> fst ` set r
                                        then AList.update ''source_file'' ''unknown'' r else r)"
  have fk: "fst ` set (fill r) \<subseteq> set (column_order enum)"
    if "r \<in> set (extracted_data self)" for r
  proof -
    have k: "fst ` set r \<subseteq> set (column_order enum)" using assms(2) that by (rule bspec)
    show ?thesis
    proof (cases "''source_file'' \<notin> fst ` set r")
      case True
      have "fst ` set (AList.update ''source_file'' ''unknown'' r) \<subseteq> set (column_order enum)"
        unfolding keys_update using assms(3) k by (rule insert_subsetI)
      with True show ?thesis by (simp add: fill_def)
    next
      case False
      with k show ?thesis by (simp add: fill_def)
    qed
  qed
  have "dict_to_list (column_order enum) (fill r) \<noteq> None"
    if "r \<in> set (extracted_data self)" for r
    using fk[OF that] by (rule dict_to_list_Some)
  then have "\<not> list_ex (\<lambda>l. l = None)
                 (map (dict_to_list (column_order enum)) (map fill (extracted_data self)))"
    by (fastforce simp: list_ex_iff)
  then show ?thesis
    using assms(1) by (simp add: save_to_csv_def Let_def fill_def)
qed

text \<open>
  Claim C4. The registry starts with \<open>source_file\<close> and no row. A write of
  \<open>flatten_element\<close> puts the key into the record and into the registry in one step, so
  a record whose keys are registered stays so, and the rows that the fallback returns have
  their keys among the inherited ones and those it has registered. Each file processed
  keeps the invariant (every key of every accumulated row is registered), whatever the file
  yields, so it holds after any number of files and at the end of \<open>process_all_files\<close>.
  The header of the CSV file is the column order of the registered keys: it contains every
  key of every row, and \<open>csv.DictWriter\<close> refuses no row. The record under construction
  is local to the function that builds it; it joins the accumulated rows when the function
  has returned.
\<close>

theorem row_keys_registered:
  "registered (init folder)
   \<and> (fst ` set record \<subseteq> fns \<longrightarrow>
        fst ` set (fst (flatten_element e pfx (record, fns)))
          \<subseteq> snd (flatten_element e pfx (record, fns)))
   \<and> (fst ` set pd \<subseteq> fns \<longrightarrow>
        (\<forall>r \<in> set (fst (flatten_nested_records e pp pd fns)).
            fst ` set r \<subseteq> snd (flatten_nested_records e pp pd fns)))
   \<and> (registered self \<longrightarrow> registered (snd (process_files files (n, self))))
   \<and> registered (snd (process_all_files listing (init folder)))
   \<and> (distinct enum \<and> set enum = field_names (snd (process_all_files listing (init folder)))
        \<longrightarrow> (\<forall>row \<in> set (extracted_data (snd (process_all_files listing (init folder)))).
                fst ` set row \<subseteq> set (column_order enum))
            \<and> (extracted_data (snd (process_all_files listing (init folder))) \<noteq> []
                 \<longrightarrow> save_to_csv (snd (process_all_files listing (init folder))) enum \<noteq> None))"
proof (intro conjI impI)
  show "registered (init folder)" by (rule registered_init)
next
  assume "fst ` set record \<subseteq> fns"
  then show "fst ` set (fst (flatten_element e pfx (record, fns)))
          \<subseteq> snd (flatten_element e pfx (record, fns))" by (rule flatten_element_keys)
next
  assume "fst ` set pd \<subseteq> fns"
  then show "\<forall>r \<in> set (fst (flatten_nested_records e pp pd fns)).
            fst ` set r \<subseteq> snd (flatten_nested_records e pp pd fns)"
    by (intro ballI) (rule flatten_nested_records_keys)
next
  assume "registered self"
  then show "registered (snd (process_files files (n, self)))" by (rule process_files_registered)
next
  show "registered (snd (process_all_files listing (init folder)))"
    by (rule process_all_files_registered[OF registered_init])
next
  let ?final = "snd (process_all_files listing (init folder))"
  assume a: "distinct enum \<and> set enum = field_names ?final"
  have r: "registered ?final" by (rule process_all_files_registered[OF registered_init])
  have c: "set (column_order enum) = field_names ?final"
    using a by (simp add: column_order_set)
  show h: "\<forall>row \<in> set (extracted_data ?final). fst ` set row \<subseteq> set (column_order enum)"
    using r unfolding c registered_def by (rule conjunct2)
  assume ne: "extracted_data ?final \<noteq> []"
  have "''source_file'' \<in> set (column_order enum)"
    using r unfolding c registered_def by (rule conjunct1)
  with ne h show "save_to_csv ?final enum \<noteq> None" by (rule save_to_csv_written)
qed
theorem row_keys_registered_witness:
  "registered (init ''data'')
   \<and> fst ` set [(''source_file'', ''a.xml'')] \<subseteq> {''source_file''}
   \<and> fst ` set ([] :: row) \<subseteq> {''source_file''}
   \<and> distinct [''Stop_@id'', ''source_file'']
   \<and> set [''Stop_@id'', ''source_file'']
       = field_names (snd (process_all_files
           [(''data/a.xml'', Parsed (Element ''root'' [] None
               [Element ''Stop'' [(''id'', ''7'')] None [],
                Element ''Stop'' [(''id'', ''8'')] None []]))] (init ''data'')))
   \<and> extracted_data (snd (process_all_files
           [(''data/a.xml'', Parsed (Element ''root'' [] None
               [Element ''Stop'' [(''id'', ''7'')] None [],
                Element ''Stop'' [(''id'', ''8'')] None []]))] (init ''data'')))
       = [[(''source_file'', ''a.xml''), (''Stop_@id'', ''7'')],
          [(''source_file'', ''a.xml''), (''Stop_@id'', ''8'')]]
   \<and> fst ` set [(''source_file'', ''a.xml''), (''Stop_@id'', ''8'')]
         \<subseteq> set (column_order [''Stop_@id'', ''source_file''])
   \<and> save_to_csv (snd (process_all_files
           [(''data/a.xml'', Parsed (Element ''root'' [] None
               [Element ''Stop'' [(''id'', ''7'')] None [],
                Element ''Stop'' [(''id'', ''8'')] None []]))] (init ''data'')))
         [''Stop_@id'', ''source_file''] \<noteq> None"
proof -
  let ?L = "[(''data/a.xml'', Parsed (Element ''root'' [] None
               [Element ''Stop'' [(''id'', ''7'')] None [],
                Element ''Stop'' [(''id'', ''8'')] None []]))]"
  let ?enum = "[''Stop_@id'', ''source_file'']"
  let ?final = "snd (process_all_files ?L (init ''data''))"
  have h1: "fst ` set [(''source_file'', ''a.xml'')] \<subseteq> {''source_file''}" by simp
  have h2: "fst ` set ([] :: row) \<subseteq> {''source_file''}" by simp
  have h3: "distinct ?enum" by simp
  have h4: "set ?enum = field_names ?final" by code_simp
  have d: "extracted_data ?final
       = [[(''source_file'', ''a.xml''), (''Stop_@id'', ''7'')],
          [(''source_file'', ''a.xml''), (''Stop_@id'', ''8'')]]" by code_simp
  have ne: "extracted_data ?final \<noteq> []" by (simp only: d) simp
  note t = row_keys_registered
             [of "''data''" "[(''source_file'', ''a.xml'')]" "{''source_file''}"
                 "Element ''Stop'' [(''id'', ''7'')] None []" "[]" "[]" "[]"
                 "init ''data''" ?L 0 ?L ?enum]
  from t have r0: "registered (init ''data'')" by (rule conjunct1)
  from t have last: "distinct ?enum \<and> set ?enum = field_names ?final
        \<longrightarrow> (\<forall>row \<in> set (extracted_data ?final). fst ` set row \<subseteq> set (column_order ?enum))
            \<and> (extracted_data ?final \<noteq> [] \<longrightarrow> save_to_csv ?final ?enum \<noteq> None)"
    by (elim conjE)
  with h3 h4 have c: "(\<forall>row \<in> set (extracted_data ?final). fst ` set row \<subseteq> set (column_order ?enum))
            \<and> (extracted_data ?final \<noteq> [] \<longrightarrow> save_to_csv ?final ?enum \<noteq> None)"
    by (elim impE) (rule conjI)
  from c have c1: "\<forall>row \<in> set (extracted_data ?final). fst ` set row \<subseteq> set (column_order ?enum)"
    by (rule conjunct1)
  have "[(''source_file'', ''a.xml''), (''Stop_@id'', ''8'')] \<in> set (extracted_data ?final)"
    by (simp only: d) simp
  with c1 have c3: "fst ` set [(''source_file'', ''a.xml''), (''Stop_@id'', ''8'')]
                      \<subseteq> set (column_order ?enum)"
    by (rule bspec)
  from c ne have c2: "save_to_csv ?final ?enum \<noteq> None"
    by (elim conjE impE)
  from r0 h1 h2 h3 h4 d c3 c2 show ?thesis by (intro conjI)
qed

subsection \<open>The key source_file\<close>

lemma has_text_strip: "has_text t \<Longrightarrow> text_strip t \<noteq> []"
  by (cases t) (simp_all add: has_text_def text_strip_def)

lemma items_at_or_value:
  "(k, v) \<in> set (items pfx e) \<Longrightarrow> CHR ''@'' \<in> set k \<or> v \<noteq> []"
proof (induction e arbitrary: pfx)
  case (Element tg attrs tx chs)
  from Element.prems have
    "(\<exists>n. k = pfx @ strip_namespace tg @ ''_@'' @ strip_namespace n)
     \<or> (has_text tx \<and> v = text_strip tx)
     \<or> (\<exists>c \<in> set chs. (k, v) \<in> set (items (pfx @ strip_namespace tg @ ''_'') c))"
    by (auto split: if_splits)
  then show ?case
  proof (elim disjE exE bexE conjE)
    fix n assume "k = pfx @ strip_namespace tg @ ''_@'' @ strip_namespace n"
    then show ?thesis by simp
  next
    assume "has_text tx" "v = text_strip tx"
    then show ?thesis by (simp add: has_text_strip)
  next
    fix c assume c: "c \<in> set chs" "(k, v) \<in> set (items (pfx @ strip_namespace tg @ ''_'') c)"
    from Element.IH[OF c] show ?thesis .
  qed
qed

lemma map_of_put_all:
  assumes "map_of r K = Some u" and "u \<noteq> []"
    and "\<And>v. (K, v) \<in> set ws \<Longrightarrow> v \<noteq> []"
  shows "\<exists>w. map_of (put_all ws r) K = Some w \<and> w \<noteq> []"
  using assms
proof (induction ws arbitrary: r u)
  case Nil
  then show ?case by simp
next
  case (Cons a ws)
  obtain k v where a: "a = (k, v)" by (cases a)
  show ?case
  proof (cases "k = K")
    case True
    have v: "v \<noteq> []" using Cons.prems(3)[of v] a True by simp
    have m: "map_of (AList.update k v r) K = Some v" using True by (simp add: update_conv')
    from Cons.IH[OF m v] Cons.prems(3) show ?thesis by (simp add: a)
  next
    case False
    have m: "map_of (AList.update k v r) K = Some u"
      using False Cons.prems(1) by (simp add: update_conv')
    from Cons.IH[OF m Cons.prems(2)] Cons.prems(3) show ?thesis by (simp add: a)
  qed
qed

lemma has_source_file_iff:
  "has_source_file r = (\<exists>w. map_of r ''source_file'' = Some w \<and> w \<noteq> [])"
  by (cases "map_of r ''source_file''") (simp_all add: has_source_file_def)

lemma record_of_source_file:
  assumes "path_name fp \<noteq> []"
  shows "has_source_file (record_of e fp)"
  unfolding has_source_file_iff record_of_def
proof (rule map_of_put_all)
  show "map_of [(''source_file'', path_name fp)] ''source_file'' = Some (path_name fp)" by simp
  show "path_name fp \<noteq> []" by (rule assms)
  fix v assume "(''source_file'', v) \<in> set (items [] e)"
  then have "CHR ''@'' \<in> set ''source_file'' \<or> v \<noteq> []" by (rule items_at_or_value)
  then show "v \<noteq> []" by simp
qed

lemma has_source_file_key: "has_source_file r \<Longrightarrow> ''source_file'' \<in> fst ` set r"
  unfolding has_source_file_iff by (elim exE conjE) (rule map_of_SomeD[THEN image_eqI[rotated]], assumption, simp)

lemma fill_source_present: "has_source_file r \<Longrightarrow> has_source_file (fill_source fp r)"
  by (simp add: fill_source_def has_source_file_key)

lemma fill_source_absent:
  "path_name fp \<noteq> [] \<Longrightarrow> ''source_file'' \<notin> fst ` set r \<Longrightarrow> has_source_file (fill_source fp r)"
  by (simp add: fill_source_def has_source_file_iff update_conv')

lemma fallback_rows_no_source_file:
  assumes "r \<in> set (fallback_rows e [])"
  shows "''source_file'' \<notin> fst ` set r"
proof
  assume "''source_file'' \<in> fst ` set r"
  moreover have "fst ` set r \<subseteq> fallback_fields e"
    using fallback_rows_keys[OF assms] by simp
  ultimately have "''source_file'' \<in> fallback_fields e" by (rule subsetD[rotated])
  then have "CHR ''.'' \<in> set ''source_file''" by (rule fallback_fields_dot)
  then show False by simp
qed

lemma extract_records_smart_source_file:
  assumes "path_name fp \<noteq> []"
  shows "\<forall>r \<in> set (fst (extract_records_smart root fp self)). has_source_file r"
proof -
  let ?I = "\<lambda>(rs :: row list, sf :: converter). \<forall>r \<in> set rs. has_source_file r"
  have "?I (extract_records_smart root fp self)"
  proof (rule extract_records_smart_inv)
    show "?I ([], self)" by simp
  next
    fix line and rs :: "row list" and sf :: converter assume "?I (rs, sf)"
    then show "?I (rs, print line sf)" by simp
  next
    fix els and rs :: "row list" and sf :: converter assume i: "?I (rs, sf)"
    have "has_source_file r" if "r \<in> set (collect_rows els fp)" for r
    proof -
      from collect_rows_mem[OF that] obtain e where "r = record_of e fp" by blast
      then show ?thesis by (simp add: record_of_source_file[OF assms])
    qed
    with i show "?I (collect_records els fp (rs, sf))"
      by (simp add: collect_records_eq ball_Un)
  qed
  then show ?thesis by (simp add: split_beta)
qed

lemma process_xml_file_source_file:
  assumes "path_name fp \<noteq> []"
  shows "\<forall>r \<in> set (fst (fst (process_xml_file fp src self))). has_source_file r"
proof (cases src)
  case (Parsed root)
  obtain rs sf where e: "extract_records_smart root fp (header_printed fp root self) = (rs, sf)"
    by (cases "extract_records_smart root fp (header_printed fp root self)")
  have k: "\<forall>r \<in> set rs. has_source_file r"
    using extract_records_smart_source_file[OF assms, of root "header_printed fp root self"] e
    by simp
  show ?thesis
  proof (cases "rs = []")
    case True
    have "has_source_file (fill_source fp r)" if "r \<in> set (fallback_rows root [])" for r
      using assms fallback_rows_no_source_file[OF that] by (rule fill_source_absent)
    then show ?thesis
      by (simp add: Parsed process_xml_file_Parsed e True)
  next
    case False
    have "has_source_file (fill_source fp r)" if "r \<in> set rs" for r
      using k that by (intro fill_source_present) (rule bspec)
    then show ?thesis
      by (simp add: Parsed process_xml_file_Parsed e False)
  qed
next
  case (ParseError m)
  then show ?thesis by (simp add: process_xml_file_def)
next
  case (OtherError m)
  then show ?thesis by (simp add: process_xml_file_def)
qed

lemma process_files_source_file:
  assumes "\<forall>f \<in> set files. path_name (fst f) \<noteq> []"
    and "\<forall>r \<in> set (extracted_data self). has_source_file r"
  shows "\<forall>r \<in> set (extracted_data (snd (process_files files (n, self)))). has_source_file r"
  using assms
proof (induction files arbitrary: n self)
  case Nil
  then show ?case by (simp add: process_files_Nil)
next
  case (Cons f files)
  obtain fp src where f: "f = (fp, src)" by (cases f)
  have p: "path_name fp \<noteq> []" using Cons.prems(1) f by simp
  let ?sf = "snd (process_xml_file fp src self)"
  have g: "extracted_data ?sf = extracted_data self"
    using process_xml_file_grows[of self fp src] by (simp add: grows_def)
  have "\<forall>r \<in> set (extracted_data (?sf\<lparr>extracted_data := extracted_data ?sf
            @ fst (fst (process_xml_file fp src self))\<rparr>)). has_source_file r"
    using Cons.prems(2) process_xml_file_source_file[OF p, of src self]
    by (simp add: g ball_Un)
  moreover have "\<forall>f \<in> set files. path_name (fst f) \<noteq> []" using Cons.prems(1) by simp
  ultimately show ?case
    unfolding f process_files_Cons by (intro Cons.IH)
qed

lemma suffix_xml_name: "suffix ''.xml'' s \<Longrightarrow> s \<noteq> []"
  by (auto simp: suffix_def)

lemma find_xml_files_names:
  "\<forall>f \<in> set (fst (find_xml_files listing self)). path_name (fst f) \<noteq> []"
  by (auto simp: find_xml_files_def Let_def dest: suffix_xml_name)

lemma find_xml_files_state:
  "extracted_data (snd (find_xml_files listing self)) = extracted_data self"
  by (simp add: find_xml_files_def Let_def)

text \<open>
  Claim C5. Every row that \<open>process_xml_file\<close> returns for a file with a name has the
  key \<open>source_file\<close> with a value that is not empty, in both modes: a record of the
  record-root mode starts as \<open>{'source_file': name}\<close>, and a later write to that key can
  only be the stripped text of an element, kept only when not blank (an attribute key
  contains \<open>@\<close>); a row of the fallback has only keys that contain a dot, and takes the
  name of the file in the loop that follows. The files found have a name that ends in
  \<open>.xml\<close>, so every row accumulated by \<open>process_all_files\<close> has such a value.
\<close>

theorem source_file_in_every_row:
  "(path_name fp \<noteq> [] \<longrightarrow>
      (\<forall>r \<in> set (fst (fst (process_xml_file fp src self))). has_source_file r))
   \<and> (\<forall>r \<in> set (extracted_data (snd (process_all_files listing (init folder)))).
         has_source_file r)"
proof (intro conjI impI)
  assume "path_name fp \<noteq> []"
  then show "\<forall>r \<in> set (fst (fst (process_xml_file fp src self))). has_source_file r"
    by (rule process_xml_file_source_file)
next
  obtain xs sf where e: "find_xml_files listing (init folder) = (xs, sf)"
    by (cases "find_xml_files listing (init folder)")
  have n: "\<forall>f \<in> set xs. path_name (fst f) \<noteq> []"
    using find_xml_files_names[of listing "init folder"] e by simp
  have d: "extracted_data sf = []"
    using find_xml_files_state[of listing "init folder"] e by (simp add: init_def)
  have "\<forall>r \<in> set (extracted_data (snd (process_files xs (0, print line sf)))). has_source_file r"
    for line
    using n by (rule process_files_source_file) (simp add: print_def d)
  then show "\<forall>r \<in> set (extracted_data (snd (process_all_files listing (init folder)))).
         has_source_file r"
    by (simp add: process_all_files_eq e print_def d)
qed
theorem source_file_in_every_row_witness:
  "path_name ''data/a.xml'' \<noteq> []
   \<and> fst (fst (process_xml_file ''data/a.xml'' (Parsed (Element ''root'' [] (Some ''x'') []))
                 (init ''data'')))
       = [[(''root.value'', ''x''), (''source_file'', ''a.xml'')]]
   \<and> has_source_file [(''root.value'', ''x''), (''source_file'', ''a.xml'')]
   \<and> extracted_data (snd (process_all_files
           [(''data/b.xml'', Parsed (Element ''root'' [] None
               [Element ''Stop'' [(''id'', ''7'')] None [],
                Element ''Stop'' [(''id'', ''8'')] None []]))] (init ''data'')))
       = [[(''source_file'', ''b.xml''), (''Stop_@id'', ''7'')],
          [(''source_file'', ''b.xml''), (''Stop_@id'', ''8'')]]
   \<and> has_source_file [(''source_file'', ''b.xml''), (''Stop_@id'', ''7'')]"
proof -
  let ?src = "Parsed (Element ''root'' [] (Some ''x'') [])"
  let ?L = "[(''data/b.xml'', Parsed (Element ''root'' [] None
               [Element ''Stop'' [(''id'', ''7'')] None [],
                Element ''Stop'' [(''id'', ''8'')] None []]))]"
  have p: "path_name ''data/a.xml'' \<noteq> []" by code_simp
  have v: "fst (fst (process_xml_file ''data/a.xml'' ?src (init ''data'')))
       = [[(''root.value'', ''x''), (''source_file'', ''a.xml'')]]" by code_simp
  have d: "extracted_data (snd (process_all_files ?L (init ''data'')))
       = [[(''source_file'', ''b.xml''), (''Stop_@id'', ''7'')],
          [(''source_file'', ''b.xml''), (''Stop_@id'', ''8'')]]" by code_simp
  note t = source_file_in_every_row [of "''data/a.xml''" ?src "init ''data''" ?L "''data''"]
  from t p have "\<forall>r \<in> set (fst (fst (process_xml_file ''data/a.xml'' ?src (init ''data'')))).
                   has_source_file r"
    by (elim conjE impE)
  moreover have "[(''root.value'', ''x''), (''source_file'', ''a.xml'')]
                   \<in> set (fst (fst (process_xml_file ''data/a.xml'' ?src (init ''data''))))"
    by (simp only: v) simp
  ultimately have a: "has_source_file [(''root.value'', ''x''), (''source_file'', ''a.xml'')]"
    by (rule bspec)
  from t have "\<forall>r \<in> set (extracted_data (snd (process_all_files ?L (init ''data'')))).
                   has_source_file r"
    by (rule conjunct2)
  moreover have "[(''source_file'', ''b.xml''), (''Stop_@id'', ''7'')]
                   \<in> set (extracted_data (snd (process_all_files ?L (init ''data''))))"
    by (simp only: d) simp
  ultimately have b: "has_source_file [(''source_file'', ''b.xml''), (''Stop_@id'', ''7'')]"
    by (rule bspec)
  from p v a d b show ?thesis by (intro conjI)
qed

subsection \<open>Determinism\<close>

lemma column_order_enum:
  assumes "distinct enum1" and "distinct enum2" and "set enum1 = set enum2"
  shows "column_order enum1 = column_order enum2"
  by (simp add: column_order_eq[OF assms(1)] column_order_eq[OF assms(2)] assms(3))

text \<open>
  Claim C9. In the model a run is a function of the folder, of the files in their
  enumeration order with what parsing each of them yields, and of the order in which the
  set \<open>self.field_names\<close> is enumerated by \<open>list(self.field_names)\<close>; a dictionary
  keeps its insertion order. The enumeration order of a set of strings is the one thing
  that may differ between two runs of the interpreter on the same input, and the CSV file
  does not depend on it: \<open>save_to_csv\<close> sorts the list before it uses it. So two runs on
  the same input write the same bytes (or both write no file).
\<close>

theorem convert_deterministic:
  assumes "distinct enum1" and "distinct enum2" and "set enum1 = set enum2"
  shows "convert folder listing enum1 = convert folder listing enum2"
proof -
  have "column_order enum1 = column_order enum2" using assms by (rule column_order_enum)
  then have "save_to_csv self enum1 = save_to_csv self enum2" for self
    by (simp add: save_to_csv_def)
  then show ?thesis by (simp add: convert_def split: prod.splits)
qed

theorem convert_deterministic_witness:
  "distinct [''Stop_@id'', ''source_file''] \<and> distinct [''source_file'', ''Stop_@id'']
   \<and> set [''Stop_@id'', ''source_file''] = set [''source_file'', ''Stop_@id'']
   \<and> convert ''data''
         [(''data/a.xml'', Parsed (Element ''root'' [] None
             [Element ''Stop'' [(''id'', ''7'')] None [],
              Element ''Stop'' [(''id'', ''8'')] None []]))]
         [''Stop_@id'', ''source_file'']
       = convert ''data''
         [(''data/a.xml'', Parsed (Element ''root'' [] None
             [Element ''Stop'' [(''id'', ''7'')] None [],
              Element ''Stop'' [(''id'', ''8'')] None []]))]
         [''source_file'', ''Stop_@id'']
   \<and> convert ''data''
         [(''data/a.xml'', Parsed (Element ''root'' [] None
             [Element ''Stop'' [(''id'', ''7'')] None [],
              Element ''Stop'' [(''id'', ''8'')] None []]))]
         [''source_file'', ''Stop_@id'']
       = Some (''source_file,Stop_@id'' @ [CHR 0x0D, CHR 0x0A]
               @ ''a.xml,7'' @ [CHR 0x0D, CHR 0x0A]
               @ ''a.xml,8'' @ [CHR 0x0D, CHR 0x0A])"
proof -
  let ?L = "[(''data/a.xml'', Parsed (Element ''root'' [] None
             [Element ''Stop'' [(''id'', ''7'')] None [],
              Element ''Stop'' [(''id'', ''8'')] None []]))]"
  have h1: "distinct [''Stop_@id'', ''source_file'']" by simp
  have h2: "distinct [''source_file'', ''Stop_@id'']" by simp
  have h3: "set [''Stop_@id'', ''source_file''] = set [''source_file'', ''Stop_@id'']"
    by (simp add: insert_commute)
  have v: "convert ''data'' ?L [''source_file'', ''Stop_@id'']
       = Some (''source_file,Stop_@id'' @ [CHR 0x0D, CHR 0x0A]
               @ ''a.xml,7'' @ [CHR 0x0D, CHR 0x0A]
               @ ''a.xml,8'' @ [CHR 0x0D, CHR 0x0A])" by code_simp
  from convert_deterministic [OF h1 h2 h3, of "''data''" ?L] h1 h2 h3 v
  show ?thesis by (intro conjI)
qed

end
